theory Spec2Isabelle
  imports Main
begin

unbundle bit_operations_syntax

section \<open>The static filtering parser of uBlock Origin (static-filtering-parser.js)\<close>

text \<open>
  The parser decomposes a line into slices, triplets of integers (class bits, origin,
  length) stored flat in one array, and describes the line with spans over that array.
  The embedding keeps this layout: the slice array is an \<open>int list\<close> addressed by
  integer offsets, a span is a record of two integers, and the parser object is a record
  that every method takes and returns.

  A JavaScript string is a sequence of UTF-16 code units: \<open>nat list\<close>, so that
  \<open>charCodeAt\<close> is list indexing. Bitwise operators of JavaScript work on 32-bit two's
  complement integers; on \<open>int\<close> the operators \<open>AND\<close>, \<open>OR\<close> and \<open>NOT\<close> agree with them as
  long as the operands are in that range, which \<open>shl\<close> ensures for the constants.
\<close>

type_synonym jsstring = "nat list"

definition str :: "string \<Rightarrow> jsstring" where
  "str s = map of_char s"

subsection \<open>Bit helpers and constants\<close>

definition shl :: "int \<Rightarrow> nat \<Rightarrow> int" where
  "shl a n = signed_take_bit 31 (push_bit n a)"

definition hasNoBits :: "int \<Rightarrow> int \<Rightarrow> bool" where
  "hasNoBits v bits = (v AND bits = 0)"

definition hasBits :: "int \<Rightarrow> int \<Rightarrow> bool" where
  "hasBits v bits = (v AND bits \<noteq> 0)"

definition hasNotAllBits :: "int \<Rightarrow> int \<Rightarrow> bool" where
  "hasNotAllBits v bits = (v AND bits \<noteq> bits)"

datatype category = CATNone | CATStaticExtFilter | CATStaticNetFilter | CATComment

definition BITSpace :: int where "BITSpace = shl 1 0"
definition BITGlyph :: int where "BITGlyph = shl 1 1"
definition BITExclamation :: int where "BITExclamation = shl 1 2"
definition BITHash :: int where "BITHash = shl 1 3"
definition BITDollar :: int where "BITDollar = shl 1 4"
definition BITPercent :: int where "BITPercent = shl 1 5"
definition BITParen :: int where "BITParen = shl 1 6"
definition BITAsterisk :: int where "BITAsterisk = shl 1 7"
definition BITPlus :: int where "BITPlus = shl 1 8"
definition BITComma :: int where "BITComma = shl 1 9"
definition BITDash :: int where "BITDash = shl 1 10"
definition BITPeriod :: int where "BITPeriod = shl 1 11"
definition BITSlash :: int where "BITSlash = shl 1 12"
definition BITNum :: int where "BITNum = shl 1 13"
definition BITEqual :: int where "BITEqual = shl 1 14"
definition BITQuestion :: int where "BITQuestion = shl 1 15"
definition BITAt :: int where "BITAt = shl 1 16"
definition BITAlpha :: int where "BITAlpha = shl 1 17"
definition BITUppercase :: int where "BITUppercase = shl 1 18"
definition BITSquareBracket :: int where "BITSquareBracket = shl 1 19"
definition BITBackslash :: int where "BITBackslash = shl 1 20"
definition BITCaret :: int where "BITCaret = shl 1 21"
definition BITUnderscore :: int where "BITUnderscore = shl 1 22"
definition BITBrace :: int where "BITBrace = shl 1 23"
definition BITPipe :: int where "BITPipe = shl 1 24"
definition BITTilde :: int where "BITTilde = shl 1 25"
definition BITOpening :: int where "BITOpening = shl 1 27"
definition BITClosing :: int where "BITClosing = shl 1 28"
definition BITUnicode :: int where "BITUnicode = shl 1 29"
definition BITIgnore :: int where "BITIgnore = shl 1 30"
definition BITError :: int where "BITError = shl 1 31"

definition BITAlphaNum :: int where "BITAlphaNum = BITNum OR BITAlpha"
definition BITRegexWord :: int where "BITRegexWord = BITAlphaNum OR BITUnderscore"
definition BITHostname :: int where
  "BITHostname = BITNum OR BITAlpha OR BITUppercase OR BITDash OR BITPeriod
                 OR BITUnderscore OR BITUnicode"
definition BITPatternToken :: int where "BITPatternToken = BITNum OR BITAlpha OR BITPercent"
definition BITLineComment :: int where
  "BITLineComment = BITExclamation OR BITHash OR BITSquareBracket"

text \<open>The class bits of the code units below 0x80, in the order of the source table.\<close>

definition charDescBits :: "int list" where
  "charDescBits = [
    0, 0, 0, 0, 0, 0, 0, 0, 0,
    BITSpace,
    BITSpace,
    0, 0,
    BITSpace,
    0, 0,
    0, 0, 0, 0, 0, 0, 0, 0, 0, 0, 0, 0, 0, 0, 0, 0,
    BITSpace,
    BITExclamation,
    BITGlyph,
    BITHash,
    BITDollar,
    BITPercent,
    BITGlyph,
    BITGlyph,
    BITParen OR BITOpening,
    BITParen OR BITClosing,
    BITAsterisk,
    BITPlus,
    BITComma,
    BITDash,
    BITPeriod,
    BITSlash,
    BITNum, BITNum, BITNum, BITNum, BITNum, BITNum, BITNum, BITNum, BITNum, BITNum,
    BITGlyph,
    BITGlyph,
    BITGlyph,
    BITEqual,
    BITGlyph,
    BITQuestion,
    BITAt,
    BITAlpha OR BITUppercase, BITAlpha OR BITUppercase, BITAlpha OR BITUppercase,
    BITAlpha OR BITUppercase, BITAlpha OR BITUppercase, BITAlpha OR BITUppercase,
    BITAlpha OR BITUppercase, BITAlpha OR BITUppercase, BITAlpha OR BITUppercase,
    BITAlpha OR BITUppercase, BITAlpha OR BITUppercase, BITAlpha OR BITUppercase,
    BITAlpha OR BITUppercase, BITAlpha OR BITUppercase, BITAlpha OR BITUppercase,
    BITAlpha OR BITUppercase, BITAlpha OR BITUppercase, BITAlpha OR BITUppercase,
    BITAlpha OR BITUppercase, BITAlpha OR BITUppercase, BITAlpha OR BITUppercase,
    BITAlpha OR BITUppercase, BITAlpha OR BITUppercase, BITAlpha OR BITUppercase,
    BITAlpha OR BITUppercase, BITAlpha OR BITUppercase,
    BITSquareBracket OR BITOpening,
    BITBackslash,
    BITSquareBracket OR BITClosing,
    BITCaret,
    BITUnderscore,
    BITGlyph,
    BITAlpha, BITAlpha, BITAlpha, BITAlpha, BITAlpha, BITAlpha, BITAlpha, BITAlpha,
    BITAlpha, BITAlpha, BITAlpha, BITAlpha, BITAlpha, BITAlpha, BITAlpha, BITAlpha,
    BITAlpha, BITAlpha, BITAlpha, BITAlpha, BITAlpha, BITAlpha, BITAlpha, BITAlpha,
    BITAlpha, BITAlpha,
    BITBrace OR BITOpening,
    BITPipe,
    BITBrace OR BITClosing,
    BITTilde,
    0
  ]"

definition BITFlavorException :: int where "BITFlavorException = shl 1 0"
definition BITFlavorNetRegex :: int where "BITFlavorNetRegex = shl 1 1"
definition BITFlavorNetLeftURLAnchor :: int where "BITFlavorNetLeftURLAnchor = shl 1 2"
definition BITFlavorNetRightURLAnchor :: int where "BITFlavorNetRightURLAnchor = shl 1 3"
definition BITFlavorNetLeftHnAnchor :: int where "BITFlavorNetLeftHnAnchor = shl 1 4"
definition BITFlavorNetRightHnAnchor :: int where "BITFlavorNetRightHnAnchor = shl 1 5"
definition BITFlavorNetSpaceInPattern :: int where "BITFlavorNetSpaceInPattern = shl 1 6"
definition BITFlavorExtStyle :: int where "BITFlavorExtStyle = shl 1 7"
definition BITFlavorExtStrong :: int where "BITFlavorExtStrong = shl 1 8"
definition BITFlavorExtCosmetic :: int where "BITFlavorExtCosmetic = shl 1 9"
definition BITFlavorExtScriptlet :: int where "BITFlavorExtScriptlet = shl 1 10"
definition BITFlavorExtHTML :: int where "BITFlavorExtHTML = shl 1 11"
definition BITFlavorIgnore :: int where "BITFlavorIgnore = shl 1 29"
definition BITFlavorUnsupported :: int where "BITFlavorUnsupported = shl 1 30"
definition BITFlavorError :: int where "BITFlavorError = shl 1 31"

definition BITFlavorNetLeftAnchor :: int where
  "BITFlavorNetLeftAnchor = BITFlavorNetLeftURLAnchor OR BITFlavorNetLeftHnAnchor"
definition BITFlavorNetRightAnchor :: int where
  "BITFlavorNetRightAnchor = BITFlavorNetRightURLAnchor OR BITFlavorNetRightHnAnchor"
definition BITFlavorNetHnAnchor :: int where
  "BITFlavorNetHnAnchor = BITFlavorNetLeftHnAnchor OR BITFlavorNetRightHnAnchor"
definition BITFlavorNetAnchor :: int where
  "BITFlavorNetAnchor = BITFlavorNetLeftAnchor OR BITFlavorNetRightAnchor"

subsection \<open>Arrays\<close>

text \<open>
  A read outside a JavaScript array yields \<open>undefined\<close>, which the bitwise operators
  take as 0 and which fails every ordering comparison, as 0 does in the comparisons of
  this program; \<open>aget\<close> returns 0 there. A store at the length of the array appends, and
  a store beyond it leaves holes, rendered as 0.
\<close>

definition aget :: "int list \<Rightarrow> int \<Rightarrow> int" where
  "aget xs k = (if 0 \<le> k \<and> k < int (length xs) then xs ! nat k else 0)"

definition aset :: "int list \<Rightarrow> int \<Rightarrow> int \<Rightarrow> int list" where
  "aset xs k v =
     (if k < 0 then xs
      else if k < int (length xs) then xs[nat k := v]
      else xs @ replicate (nat k - length xs) 0 @ [v])"

text \<open>
  \<open>Array.prototype.copyWithin(target, start, end)\<close> for offsets that are not negative:
  the cells \<open>[start, end)\<close> are copied to \<open>target\<close> as if through a buffer, and the
  array keeps its length.
\<close>

definition copyWithin :: "int list \<Rightarrow> int \<Rightarrow> int \<Rightarrow> int \<Rightarrow> int list" where
  "copyWithin xs target start end' =
     (let len = length xs;
          t = min (nat target) len;
          s = min (nat start) len;
          e = min (nat end') len;
          count = min (e - s) (len - t)
      in take t xs @ take count (drop s xs) @ drop (t + count) xs)"

subsection \<open>Spans and the parser object\<close>

record Span =
  span_i :: int
  span_l :: int

datatype span_id =
    leftSpaceSpan | exceptionSpan | patternLeftAnchorSpan | patternSpan
  | patternRightAnchorSpan | optionsAnchorSpan | optionsSpan | commentSpan
  | rightSpaceSpan | eolSpan

definition all_spans :: "span_id list" where
  "all_spans = [leftSpaceSpan, exceptionSpan, patternLeftAnchorSpan, patternSpan,
                patternRightAnchorSpan, optionsAnchorSpan, optionsSpan, commentSpan,
                rightSpaceSpan, eolSpan]"

record Result =
  res_exception :: bool
  res_raw :: jsstring
  res_compiled :: "jsstring option"
  res_pseudoclass :: bool

text \<open>
  Two methods reach into the browser: \<open>compileSelector\<close> asks the DOM whether a selector is
  valid, and \<open>toPunycode\<close> lets a URL object convert a hostname. Both are fields of the
  model: \<open>compileSelector\<close> takes the selector and the flavor bits (it reads nothing else
  of the parser) and returns its verdict with what it writes into the result object, which
  it never reads; \<open>punycoder\<close> maps the hostname assigned to the URL object to the
  hostname the object then has, or to \<open>None\<close> where the assignment throws.
\<close>

record Parser =
  interactive :: bool
  raw :: jsstring
  slices :: "int list"
  spans :: "span_id \<Rightarrow> Span"
  maxTokenLength :: int
  result :: Result
  sliceWritePtr :: int
  category :: category
  allBits :: int
  patternBits :: int
  optionsBits :: int
  flavorBits :: int
  pattern :: jsstring
  compileSelector :: "jsstring \<Rightarrow> int \<Rightarrow> bool \<times> (Result \<Rightarrow> Result)"
  punycoder :: "jsstring \<Rightarrow> jsstring option"
  punycoderHostname :: jsstring

definition spI :: "Parser \<Rightarrow> span_id \<Rightarrow> int" where
  "spI p s = span_i (spans p s)"

definition spL :: "Parser \<Rightarrow> span_id \<Rightarrow> int" where
  "spL p s = span_l (spans p s)"

definition setI :: "span_id \<Rightarrow> int \<Rightarrow> Parser \<Rightarrow> Parser" where
  "setI s v p = p\<lparr>spans := (spans p)(s := (spans p s)\<lparr>span_i := v\<rparr>)\<rparr>"

definition setL :: "span_id \<Rightarrow> int \<Rightarrow> Parser \<Rightarrow> Parser" where
  "setL s v p = p\<lparr>spans := (spans p)(s := (spans p s)\<lparr>span_l := v\<rparr>)\<rparr>"

definition cell :: "Parser \<Rightarrow> int \<Rightarrow> int" where
  "cell p k = aget (slices p) k"

definition reset :: "Parser \<Rightarrow> Parser" where
  "reset p = p\<lparr>sliceWritePtr := 0, category := CATNone, allBits := 0, patternBits := 0,
               optionsBits := 0, flavorBits := 0,
               spans := (\<lambda>s. \<lparr>span_i = 0, span_l = 0\<rparr>), pattern := []\<rparr>"

text \<open>The constructor; \<open>maxTokenLength\<close> starts as \<open>Number.MAX_SAFE_INTEGER\<close>.\<close>

definition newParser ::
  "bool \<Rightarrow> (jsstring \<Rightarrow> int \<Rightarrow> bool \<times> (Result \<Rightarrow> Result)) \<Rightarrow> (jsstring \<Rightarrow> jsstring option)
     \<Rightarrow> Parser"
where
  "newParser ia cs pc =
     reset \<lparr>interactive = ia, raw = [], slices = [], spans = (\<lambda>s. \<lparr>span_i = 0, span_l = 0\<rparr>),
            maxTokenLength = 9007199254740991,
            result = \<lparr>res_exception = False, res_raw = [], res_compiled = Some [],
                       res_pseudoclass = False\<rparr>,
            sliceWritePtr = 0, category = CATNone, allBits = 0, patternBits = 0,
            optionsBits = 0, flavorBits = 0, pattern = [],
            compileSelector = cs, punycoder = pc, punycoderHostname = []\<rparr>"

subsection \<open>Slicing a line\<close>

definition charBits :: "nat \<Rightarrow> int" where
  "charBits c = (if c < 0x80 then charDescBits ! c else BITUnicode OR BITAlpha)"

text \<open>
  The loop of \<open>slice\<close>: \<open>sls\<close> is the array, \<open>ptr\<close> the write offset, \<open>aBits\<close> the class of
  the open slice, \<open>i\<close> its origin and \<open>j\<close> the read offset. It returns the array, the write
  offset, the union of the class bits, the origin of the last slice and the read offset.
\<close>

function slice_loop ::
  "jsstring \<Rightarrow> int list \<Rightarrow> int \<Rightarrow> int \<Rightarrow> int \<Rightarrow> int \<Rightarrow> int
     \<Rightarrow> int list \<times> int \<times> int \<times> int \<times> int"
where
  "slice_loop line sls ptr allB aBits i j =
     (if j < int (length line) then
        (let bBits = charBits (line ! nat j) in
         if bBits \<noteq> aBits then
           slice_loop line
             (aset (aset (aset sls ptr (j - i)) (ptr + 1) bBits) (ptr + 2) j)
             (ptr + 3) (allB OR bBits) bBits j (j + 1)
         else slice_loop line sls ptr allB aBits i (j + 1))
      else (sls, ptr, allB, i, j))"
  by pat_completeness auto
termination
  by (relation "measure (\<lambda>(line, sls, ptr, allB, aBits, i, j). nat (int (length line) - j))") auto

declare slice_loop.simps [simp del]

definition slice :: "jsstring \<Rightarrow> Parser \<Rightarrow> Parser" where
  "slice line p0 =
     (let p = (reset p0)\<lparr>raw := line\<rparr>;
          rawEnd = int (length line)
      in if rawEnd = 0 then p
         else
           let ptr = sliceWritePtr p;
               aBits = charBits (line ! 0);
               sls = aset (aset (slices p) ptr aBits) (ptr + 1) 0;
               (sls, ptr, allB, i, j) = slice_loop line sls (ptr + 2) aBits aBits 0 1;
               sls = aset sls ptr (j - i);
               ptr = ptr + 1;
               p = setI eolSpan ptr p;
               sls = aset (aset (aset sls ptr 0) (ptr + 1) rawEnd) (ptr + 2) 0;
               ptr = ptr + 3;
               p = (if aget sls 0 AND BITSpace \<noteq> 0 then setL leftSpaceSpan 3 p
                    else setL leftSpaceSpan 0 p);
               lastSlice = spI p eolSpan - 3;
               p = (if lastSlice > spI p leftSpaceSpan \<and> aget sls lastSlice AND BITSpace \<noteq> 0
                    then setL rightSpaceSpan 3 (setI rightSpaceSpan lastSlice p)
                    else setL rightSpaceSpan 0 (setI rightSpaceSpan (spI p eolSpan) p))
           in p\<lparr>slices := sls, sliceWritePtr := ptr, allBits := allB\<rparr>)"


subsection \<open>Splitting and marking slices\<close>

definition splitSlot :: "int \<Rightarrow> int \<Rightarrow> Parser \<Rightarrow> Parser" where
  "splitSlot slot l p =
     (let wp = sliceWritePtr p + 3;
          s0 = (if wp > int (length (slices p)) then slices p @ [0, 0, 0] else slices p);
          s1 = copyWithin s0 (slot + 3) slot (wp - 3);
          s2 = aset s1 (slot + 3 + 1) (aget s1 (slot + 1) + l);
          s3 = aset s2 (slot + 3 + 2) (aget s2 (slot + 2) - l);
          s4 = aset s3 (slot + 2) l
      in p\<lparr>sliceWritePtr := wp, slices := s4,
           spans := (\<lambda>s. if span_i (spans p s) > slot
                          then (spans p s)\<lparr>span_i := span_i (spans p s) + 3\<rparr>
                          else spans p s)\<rparr>)"

function markSlices_loop :: "int list \<Rightarrow> int \<Rightarrow> int \<Rightarrow> int \<Rightarrow> int list" where
  "markSlices_loop sls beg end' bits =
     (if beg < end' then markSlices_loop (aset sls beg (aget sls beg OR bits)) (beg + 3) end' bits
      else sls)"
  by pat_completeness auto
termination
  by (relation "measure (\<lambda>(sls, beg, end', bits). nat (end' - beg))") auto

declare markSlices_loop.simps [simp del]

definition markSlices :: "int \<Rightarrow> int \<Rightarrow> int \<Rightarrow> Parser \<Rightarrow> Parser" where
  "markSlices beg end' bits p = p\<lparr>slices := markSlices_loop (slices p) beg end' bits\<rparr>"

definition markSpan :: "span_id \<Rightarrow> int \<Rightarrow> Parser \<Rightarrow> Parser" where
  "markSpan s bits p = markSlices (spI p s) (spI p s + spL p s) bits p"

function findFirstMatch_loop :: "Parser \<Rightarrow> int \<Rightarrow> int \<Rightarrow> int" where
  "findFirstMatch_loop p to bits =
     (if to < sliceWritePtr p then
        (if cell p to AND bits \<noteq> 0 then to else findFirstMatch_loop p (to + 3) bits)
      else -1)"
  by pat_completeness auto
termination
  by (relation "measure (\<lambda>(p, to, bits). nat (sliceWritePtr p - to))") auto

declare findFirstMatch_loop.simps [simp del]

definition findFirstMatch :: "Parser \<Rightarrow> int \<Rightarrow> int \<Rightarrow> int" where
  "findFirstMatch p from bits = findFirstMatch_loop p from bits"

function findFirstOdd_loop :: "Parser \<Rightarrow> int \<Rightarrow> int \<Rightarrow> int" where
  "findFirstOdd_loop p to bits =
     (if to < sliceWritePtr p then
        (if cell p to AND bits = 0 then to else findFirstOdd_loop p (to + 3) bits)
      else -1)"
  by pat_completeness auto
termination
  by (relation "measure (\<lambda>(p, to, bits). nat (sliceWritePtr p - to))") auto

declare findFirstOdd_loop.simps [simp del]

definition findFirstOdd :: "Parser \<Rightarrow> int \<Rightarrow> int \<Rightarrow> int" where
  "findFirstOdd p from bits = findFirstOdd_loop p from bits"

text \<open>
  \<open>skipUntilNot\<close> always leaves its loop: beyond the end of the array every read is
  \<open>undefined\<close>, which carries no bit.
\<close>

function skipUntilNot_loop :: "int list \<Rightarrow> int \<Rightarrow> int \<Rightarrow> int \<Rightarrow> int" where
  "skipUntilNot_loop sls i to bits =
     (if i = to \<or> aget sls i AND bits = 0 then i else skipUntilNot_loop sls (i + 3) to bits)"
  by pat_completeness auto
termination
proof (relation "measure (\<lambda>(sls, i, to, bits). nat (int (length sls) - i))")
  show "wf (measure (\<lambda>(sls, i, to, bits). nat (int (length sls) - i)))"
    by simp
next
  fix sls :: "int list" and i to bits :: int
  assume "\<not> (i = to \<or> aget sls i AND bits = 0)"
  then have "aget sls i \<noteq> 0"
    by auto
  then have "i < int (length sls)"
    by (auto simp: aget_def split: if_splits)
  then show "((sls, i + 3, to, bits), (sls, i, to, bits))
      \<in> measure (\<lambda>(sls, i, to, bits). nat (int (length sls) - i))"
    by simp
qed

declare skipUntilNot_loop.simps [simp del]

definition skipUntilNot :: "Parser \<Rightarrow> int \<Rightarrow> int \<Rightarrow> int \<Rightarrow> int" where
  "skipUntilNot p from to bits = skipUntilNot_loop (slices p) (from + 3) to bits"

text \<open>
  \<open>skipUntil\<close> stops at \<open>to\<close> or at a slice with one of the bits. Once \<open>i\<close> is beyond both
  \<open>to\<close> and the array, neither can happen any more and the loop of the source never ends:
  the result is \<open>None\<close>.
\<close>

function skipUntil_loop :: "int list \<Rightarrow> int \<Rightarrow> int \<Rightarrow> int \<Rightarrow> int option" where
  "skipUntil_loop sls i to bits =
     (if i = to \<or> aget sls i AND bits \<noteq> 0 then Some i
      else if to < i \<and> int (length sls) \<le> i then None
      else skipUntil_loop sls (i + 3) to bits)"
  by pat_completeness auto
termination
  by (relation "measure (\<lambda>(sls, i, to, bits). nat (max to (int (length sls)) - i))") auto

declare skipUntil_loop.simps [simp del]

definition skipUntil :: "Parser \<Rightarrow> int \<Rightarrow> int \<Rightarrow> int \<Rightarrow> int option" where
  "skipUntil p from to bits = skipUntil_loop (slices p) (from + 3) to bits"

subsection \<open>Strings\<close>

text \<open>\<open>String.prototype.slice(begin, end)\<close>: a negative offset counts from the end.\<close>

definition js_slice :: "jsstring \<Rightarrow> int \<Rightarrow> int \<Rightarrow> jsstring" where
  "js_slice s b e =
     (let len = int (length s);
          b' = (if b < 0 then max (len + b) 0 else min b len);
          e' = (if e < 0 then max (len + e) 0 else min e len)
      in take (nat (e' - b')) (drop (nat b') s))"

definition js_slice_from :: "jsstring \<Rightarrow> int \<Rightarrow> jsstring" where
  "js_slice_from s b = js_slice s b (int (length s))"

definition startsWith :: "jsstring \<Rightarrow> jsstring \<Rightarrow> bool" where
  "startsWith s w = (take (length w) s = w)"

definition endsWith :: "jsstring \<Rightarrow> jsstring \<Rightarrow> bool" where
  "endsWith s w = (length w \<le> length s \<and> drop (length s - length w) s = w)"

definition strFromSlices :: "Parser \<Rightarrow> int \<Rightarrow> int \<Rightarrow> jsstring" where
  "strFromSlices p from to = js_slice (raw p) (cell p (from + 1)) (cell p (to + 1) + cell p (to + 2))"

definition strFromSpan :: "Parser \<Rightarrow> span_id \<Rightarrow> jsstring" where
  "strFromSpan p s =
     (if spL p s = 0 then []
      else let beg = spI p s in strFromSlices p beg (beg + spL p s - 3))"

subsection \<open>Queries\<close>

definition isBlank :: "Parser \<Rightarrow> bool" where
  "isBlank p = (allBits p = BITSpace)"

definition hasOptions :: "Parser \<Rightarrow> bool" where
  "hasOptions p = (spL p optionsSpan \<noteq> 0)"

definition isException :: "Parser \<Rightarrow> bool" where
  "isException p = hasBits (flavorBits p) BITFlavorException"

definition shouldIgnore :: "Parser \<Rightarrow> bool" where
  "shouldIgnore p = hasBits (flavorBits p) BITFlavorIgnore"

definition hasError :: "Parser \<Rightarrow> bool" where
  "hasError p = hasBits (flavorBits p) BITFlavorError"

definition patternIsRegex :: "Parser \<Rightarrow> bool" where
  "patternIsRegex p = (flavorBits p AND BITFlavorNetRegex \<noteq> 0)"

definition patternHasUnicode :: "Parser \<Rightarrow> bool" where
  "patternHasUnicode p = hasBits (patternBits p) BITUnicode"

text \<open>\<open>getNetPattern\<close> caches the pattern it extracts in the field \<open>pattern\<close>.\<close>

definition getNetPattern :: "Parser \<Rightarrow> jsstring \<times> Parser" where
  "getNetPattern p =
     (if pattern p \<noteq> [] then (pattern p, p)
      else let i = spI p patternSpan; l = spL p patternSpan in
        if l = 0 then ([], p)
        else
          let beg = cell p (i + 1);
              end' = cell p (i + l + 1);
              (beg, end') = (if hasBits (flavorBits p) BITFlavorNetRegex
                             then (beg + 1, end' - 1) else (beg, end'));
              pat = js_slice (raw p) beg end'
          in (pat, p\<lparr>pattern := pat\<rparr>))"


subsection \<open>Static extended filters\<close>

definition BITFlavorUnsupportedOr :: "Parser \<Rightarrow> Parser" where
  "BITFlavorUnsupportedOr p = p\<lparr>flavorBits := flavorBits p OR BITFlavorUnsupported\<rparr>"

definition analyzeExtPattern :: "Parser \<Rightarrow> Parser" where
  "analyzeExtPattern p0 =
     (let p = p0\<lparr>result := (result p0)\<lparr>res_exception := isException p0, res_compiled := None,
                                         res_pseudoclass := False\<rparr>\<rparr>;
          selector = strFromSpan p patternSpan
      in if selector = [] then
           (BITFlavorUnsupportedOr p)\<lparr>result := (result p)\<lparr>res_raw := []\<rparr>\<rparr>
         else
           let i = spI p patternSpan in
           if hasBits (cell p i) BITPlus \<and> startsWith selector (str ''+js('')
              \<and> endsWith selector (str '')'')
           then p\<lparr>flavorBits := flavorBits p OR BITFlavorExtScriptlet,
                  result := (result p)\<lparr>res_raw := selector,
                                          res_compiled := Some (js_slice selector 4 (- 1))\<rparr>\<rparr>
           else
             let (p, selector) =
                   (if hasBits (cell p i) BITCaret
                    then (p\<lparr>flavorBits := flavorBits p OR BITFlavorExtHTML\<rparr>,
                          js_slice_from selector 1)
                    else (p\<lparr>flavorBits := flavorBits p OR BITFlavorExtCosmetic\<rparr>, selector));
                 p = p\<lparr>result := (result p)\<lparr>res_raw := selector\<rparr>\<rparr>;
                 (ok, out) = compileSelector p selector (flavorBits p);
                 p = p\<lparr>result := out (result p)\<rparr>
             in if ok = False then BITFlavorUnsupportedOr p else p)"

text \<open>
  The anchor of an extended filter after a single \<open>#\<close>. The two helpers run the tests for
  \<open>@\<close> and for \<open>$\<close>, \<open>%\<close>, \<open>?\<close>; \<open>None\<close> stands for the \<open>return\<close> of the source, and the
  pair is the local \<open>flavorBits\<close> with the offset \<open>to\<close>.
\<close>

definition analyzeExt_at :: "Parser \<Rightarrow> int \<Rightarrow> int \<times> int \<Rightarrow> (int \<times> int) option" where
  "analyzeExt_at p end' ft =
     (let (fb, to) = ft in
      if hasBits (cell p to) BITAt then
        (if cell p (to + 2) \<noteq> 1 then None
         else let fb = fb OR BITFlavorException; to = to + 3
              in if to = end' then None else Some (fb, to))
      else Some (fb, to))"

definition analyzeExt_style :: "Parser \<Rightarrow> int \<Rightarrow> int \<times> int \<Rightarrow> (int \<times> int) option" where
  "analyzeExt_style p end' ft =
     (let (fb, to) = ft in
      if hasBits (cell p to) BITDollar then
        (if cell p (to + 2) \<noteq> 1 then None
         else let fb = fb OR BITFlavorExtStyle; to = to + 3
              in if to = end' then None
                 else if hasBits (cell p to) BITQuestion then
                   (if cell p (to + 2) \<noteq> 1 then None
                    else let fb = fb OR BITFlavorExtStrong; to = to + 3
                         in if to = end' then None else Some (fb, to))
                 else Some (fb, to))
      else if hasBits (cell p to) (BITPercent OR BITQuestion) then
        (if cell p (to + 2) \<noteq> 1 then None
         else let fb = fb OR (if hasBits (cell p to) BITQuestion then BITFlavorExtStrong
                              else BITFlavorUnsupported);
                  to = to + 3
              in if to = end' then None else Some (fb, to))
      else Some (fb, to))"

definition analyzeExt_spans :: "int \<Rightarrow> int \<Rightarrow> Parser \<Rightarrow> Parser" where
  "analyzeExt_spans from to p0 =
     (let p = setI optionsSpan (spI p0 leftSpaceSpan + spL p0 leftSpaceSpan) p0;
          p = setL optionsSpan (from - spI p optionsSpan) p;
          p = setI optionsAnchorSpan from p;
          p = setL optionsAnchorSpan (to - spI p optionsAnchorSpan) p;
          p = setI patternSpan to p;
          p = setL patternSpan (spI p rightSpaceSpan - to) p
      in p)"

definition analyzeExt :: "int \<Rightarrow> Parser \<Rightarrow> Parser" where
  "analyzeExt from p =
     (let end' = spI p rightSpaceSpan;
          l = cell p (from + 2)
      in if l > 3 then p
         else if l \<noteq> 1 then
           (if l = 2 \<and> (from + 3 = end' \<or> hasBits (cell p (from + 3)) BITSpace) then p
            else
              let p = (if l = 2 then p else splitSlot from 2 p);
                  p = analyzeExt_spans from (from + 3) p
              in analyzeExtPattern (p\<lparr>category := CATStaticExtFilter\<rparr>))
         else
           let to = from + 3 in
           if to = end' then p
           else
             case Option.bind (analyzeExt_at p end' (0, to)) (analyzeExt_style p end') of
               None \<Rightarrow> p
             | Some (fb, to) \<Rightarrow>
                 if hasNoBits (cell p to) BITHash then p
                 else
                   let p = (if cell p (to + 2) > 1 then splitSlot to 1 p else p);
                       to = to + 3;
                       p = analyzeExt_spans from to p
                   in analyzeExtPattern (p\<lparr>flavorBits := fb, category := CATStaticExtFilter\<rparr>))"

subsection \<open>Static network filters\<close>

definition orSlice :: "int \<Rightarrow> int \<Rightarrow> Parser \<Rightarrow> Parser" where
  "orSlice k bits p = p\<lparr>slices := aset (slices p) k (cell p k OR bits)\<rparr>"

definition orFlavor :: "int \<Rightarrow> Parser \<Rightarrow> Parser" where
  "orFlavor bits p = p\<lparr>flavorBits := flavorBits p OR bits\<rparr>"

definition clearFlavor :: "int \<Rightarrow> Parser \<Rightarrow> Parser" where
  "clearFlavor bits p = p\<lparr>flavorBits := flavorBits p AND NOT bits\<rparr>"

text \<open>The exception declarator \<open>@@\<close>; the result carries the local \<open>islice\<close>.\<close>

definition analyzeNet_exception :: "Parser \<Rightarrow> Parser \<times> int" where
  "analyzeNet_exception p0 =
     (let islice = spI p0 leftSpaceSpan;
          p = setI exceptionSpan (spL p0 leftSpaceSpan) p0
      in if islice < spI p commentSpan \<and> hasBits (cell p islice) BITAt then
           (let l = cell p (islice + 2) in
            if l \<ge> 2 then
              (let p = (if l > 2 then splitSlot islice 2 p else p);
                   p = setL exceptionSpan 3 p
               in (orFlavor BITFlavorException p, islice + 3))
            else (p, islice))
         else (p, islice))"

text \<open>The test that the source writes twice: the pattern span looks like a regex.\<close>

definition patternLooksRegex :: "Parser \<Rightarrow> bool" where
  "patternLooksRegex p =
     (let i = spI p patternSpan; l = spL p patternSpan
      in l = 3 \<and> cell p (i + 2) > 2 \<or> l > 3 \<and> hasBits (cell p (i + l - 3)) BITSlash)"

function analyzeNet_options_loop :: "Parser \<Rightarrow> int \<Rightarrow> int \<Rightarrow> int \<Rightarrow> int \<times> int" where
  "analyzeNet_options_loop p islice i ob =
     (let i = i - 3 in
      if i < islice then (i, ob)
      else let bits = cell p i in
        if hasBits bits BITDollar then (i, ob)
        else analyzeNet_options_loop p islice i (ob OR bits))"
  by pat_completeness auto
termination
  by (relation "measure (\<lambda>(p, islice, i, ob). nat (i - islice))") auto

declare analyzeNet_options_loop.simps [simp del]

text \<open>
  The options anchor found at the slice \<open>i\<close> of length \<open>l\<close>: a run of several \<open>$\<close> is an
  error when nothing but hostname characters, commas and asterisks come before it, and is
  split otherwise. The result carries the local \<open>i\<close>.
\<close>

definition analyzeNet_dollar :: "Parser \<Rightarrow> int \<Rightarrow> int \<Rightarrow> Parser \<times> int" where
  "analyzeNet_dollar p i l =
     (if l > 1 then
        (if findFirstOdd p 0 (BITHostname OR BITComma OR BITAsterisk) = i then
           (let p = orFlavor BITFlavorError p
            in (if interactive p then markSlices i (i + 3) BITError p else p, i))
         else (splitSlot i (l - 1) p, i + 3))
      else (p, i))"

definition analyzeNet_options_found :: "Parser \<Rightarrow> int \<Rightarrow> int \<Rightarrow> Parser" where
  "analyzeNet_options_found p0 i0 ob =
     (let l = cell p0 (i0 + 2);
          (p, i) = analyzeNet_dollar p0 i0 l;
          p = setL patternSpan (i - spI p patternSpan) p;
          p = setI optionsAnchorSpan i p;
          p = setL optionsAnchorSpan 3 p;
          i = i + 3;
          p = setI optionsSpan i p;
          p = setL optionsSpan (spI p commentSpan - i) p
      in p\<lparr>optionsBits := ob\<rparr>)"

text \<open>
  The pattern and the options; the result carries the local \<open>patternIsRegex\<close>, here
  \<open>isRegex\<close>.
\<close>

definition analyzeNet_options :: "Parser \<Rightarrow> int \<Rightarrow> Parser \<times> bool" where
  "analyzeNet_options p0 islice =
     (let p = setI optionsSpan (spI p0 commentSpan) p0;
          p = setI optionsAnchorSpan (spI p optionsSpan) p;
          p = setI patternSpan islice p;
          p = setL patternSpan (spI p optionsAnchorSpan - islice) p;
          patternStartIsRegex = (islice < spI p optionsAnchorSpan \<and> hasBits (cell p islice) BITSlash);
          isRegex = (if patternStartIsRegex then patternLooksRegex p else patternStartIsRegex)
      in if isRegex = False then
           (let (i, ob) = analyzeNet_options_loop p islice (spI p optionsAnchorSpan) 0 in
            if i \<ge> islice then
              (let p = analyzeNet_options_found p i ob
               in (p, if patternStartIsRegex then patternLooksRegex p else isRegex))
            else (p, isRegex))
         else (p, isRegex))"

definition analyzeNet_leftAnchor :: "Parser \<Rightarrow> Parser" where
  "analyzeNet_leftAnchor p0 =
     (if spL p0 patternSpan \<noteq> 0 \<and> hasBits (cell p0 (spI p0 patternSpan)) BITPipe then
        (let p = setL patternLeftAnchorSpan 3 p0;
             l = cell p (spI p patternSpan + 2);
             p = (if l > 2 then splitSlot (spI p patternSpan) 2 p
                  else setL patternSpan (spL p patternSpan - 3) p);
             p = setI patternSpan (spI p patternSpan + 3) p
         in orFlavor (if l = 1 then BITFlavorNetLeftURLAnchor else BITFlavorNetLeftHnAnchor) p)
      else p0)"

definition analyzeNet_rightPipe :: "Parser \<Rightarrow> int \<Rightarrow> Parser" where
  "analyzeNet_rightPipe p0 lastPatternSlice =
     (let p = setI patternRightAnchorSpan lastPatternSlice p0;
          p = setL patternRightAnchorSpan 3 p;
          l = cell p (spI p patternRightAnchorSpan + 2);
          p = (if l > 1 then
                 (let p = splitSlot (spI p patternRightAnchorSpan) (l - 1) p
                  in setI patternRightAnchorSpan (spI p patternRightAnchorSpan + 3) p)
               else setL patternSpan (spL p patternSpan - 3) p)
      in orFlavor BITFlavorNetRightURLAnchor p)"

definition analyzeNet_rightCaret :: "Parser \<Rightarrow> int \<Rightarrow> Parser" where
  "analyzeNet_rightCaret p0 lastPatternSlice =
     (let p = setI patternRightAnchorSpan lastPatternSlice p0;
          p = setL patternRightAnchorSpan 3 p;
          p = setL patternSpan (spL p patternSpan - 3) p
      in orFlavor BITFlavorNetRightHnAnchor p)"

definition analyzeNet_rightAnchor :: "Parser \<Rightarrow> Parser" where
  "analyzeNet_rightAnchor p0 =
     (if spL p0 patternSpan \<noteq> 0 then
        (let lastPatternSlice =
               (if spL p0 patternSpan > 3 then spI p0 patternRightAnchorSpan - 3
                else spI p0 patternSpan);
             bits = cell p0 lastPatternSlice
         in if bits AND BITPipe \<noteq> 0 then analyzeNet_rightPipe p0 lastPatternSlice
            else if hasBits bits BITCaret \<and> cell p0 (lastPatternSlice + 2) = 1
                    \<and> hasBits (flavorBits p0) BITFlavorNetLeftHnAnchor
                    \<and> skipUntilNot p0 (spI p0 patternSpan) lastPatternSlice BITHostname
                        = lastPatternSlice
            then analyzeNet_rightCaret p0 lastPatternSlice
            else p0)
      else p0)"

definition analyzeNet_anchors :: "bool \<Rightarrow> Parser \<Rightarrow> Parser" where
  "analyzeNet_anchors isRegex p0 =
     (let p = setI patternLeftAnchorSpan (spI p0 patternSpan) p0;
          p = setI patternRightAnchorSpan (spI p optionsAnchorSpan) p
      in if isRegex = False then analyzeNet_rightAnchor (analyzeNet_leftAnchor p) else p)"

text \<open>
  The regular expression \<open>/(?:0\.0\.0\.0|(?:broadcast|local)host|local|ip6-\w+)\b/\<close>, tested
  anywhere in the string. Every alternative ends with a word character, so the boundary
  \<open>\b\<close> asks for the end of the string or a character that is not a word character; after
  \<open>ip6-\<close> the greedy \<open>\w+\<close> takes the whole run of word characters, which ends at a boundary.
\<close>

definition isWordChar :: "nat \<Rightarrow> bool" where
  "isWordChar c = (48 \<le> c \<and> c \<le> 57 \<or> 65 \<le> c \<and> c \<le> 90 \<or> c = 95 \<or> 97 \<le> c \<and> c \<le> 122)"

definition wordThenBoundary :: "jsstring \<Rightarrow> jsstring \<Rightarrow> bool" where
  "wordThenBoundary w s =
     (startsWith s w \<and> (case drop (length w) s of [] \<Rightarrow> True | c # cs \<Rightarrow> \<not> isWordChar c))"

definition localhostRedirectHere :: "jsstring \<Rightarrow> bool" where
  "localhostRedirectHere s =
     (wordThenBoundary (str ''0.0.0.0'') s \<or> wordThenBoundary (str ''broadcasthost'') s
      \<or> wordThenBoundary (str ''localhost'') s \<or> wordThenBoundary (str ''local'') s
      \<or> (startsWith s (str ''ip6-'')
          \<and> (case drop 4 s of [] \<Rightarrow> False | c # cs \<Rightarrow> isWordChar c)))"

fun reIsLocalhostRedirect :: "jsstring \<Rightarrow> bool" where
  "reIsLocalhostRedirect [] = False"
| "reIsLocalhostRedirect (c # cs) =
     (localhostRedirectHere (c # cs) \<or> reIsLocalhostRedirect cs)"

text \<open>
  The backward scan for a space in the pattern. The loop of the source ends when \<open>j\<close>
  reaches 0 or a slice carries \<open>SPACE\<close>. Once both \<open>j\<close> and the offset \<open>i + j\<close> are
  negative, \<open>j\<close> never is 0 again and every read is \<open>undefined\<close>: the loop never ends, and
  the result is \<open>None\<close>.
\<close>

function analyzeNet_space_loop :: "int list \<Rightarrow> int \<Rightarrow> int \<Rightarrow> int \<Rightarrow> (int \<times> int) option" where
  "analyzeNet_space_loop sls i j pb =
     (if j = 0 then Some (j, pb)
      else let j = j - 3; bits = aget sls (i + j) in
        if hasBits bits BITSpace then Some (j, pb)
        else if j < 0 \<and> i + j < 0 then None
        else analyzeNet_space_loop sls i j (pb OR bits))"
  by pat_completeness auto
termination
  by (relation "measure (\<lambda>(sls, i, j, pb). nat (max j (i + j) + 3))") auto

declare analyzeNet_space_loop.simps [simp del]

definition analyzeNet_dropToSpace :: "Parser \<Rightarrow> int \<Rightarrow> Parser" where
  "analyzeNet_dropToSpace p0 j =
     (let p = setI patternSpan (spI p0 patternSpan + (j + 3)) p0;
          p = setL patternSpan (spL p patternSpan - (j + 3)) p;
          (pat, p) = getNetPattern p;
          p = (if reIsLocalhostRedirect pat then orFlavor BITFlavorIgnore p else p)
      in if interactive p then markSlices 0 (spI p patternSpan) BITIgnore p else p)"

definition analyzeNet_spaces :: "Parser \<Rightarrow> Parser option" where
  "analyzeNet_spaces p0 =
     (let i = spI p0 patternSpan; l = spL p0 patternSpan in
      case analyzeNet_space_loop (slices p0) i l (patternBits p0) of
        None \<Rightarrow> None
      | Some (j, pb) \<Rightarrow>
          (let p = p0\<lparr>patternBits := pb\<rparr> in
           if j \<noteq> 0 then Some (analyzeNet_dropToSpace p j) else Some p))"

text \<open>
  The four blocks that eliminate pointless wildcards and anchors; they share the locals
  \<open>i\<close> and \<open>l\<close>, which the first two change.
\<close>

definition analyzeNet_leadingWildcard :: "Parser \<Rightarrow> int \<Rightarrow> int \<Rightarrow> Parser \<times> int \<times> int" where
  "analyzeNet_leadingWildcard p0 i0 l0 =
     (if l0 > 3 \<and> hasBits (cell p0 i0) BITAsterisk \<and> hasNoBits (cell p0 (i0 + 3)) BITPatternToken
      then
        (let p = orSlice i0 BITIgnore p0;
             i = i0 + 3; l = l0 - 3;
             p = setI patternSpan i p;
             p = setL patternSpan l p;
             p = (if spL p patternLeftAnchorSpan \<noteq> 0
                  then clearFlavor BITFlavorNetLeftAnchor
                         (orSlice (spI p patternLeftAnchorSpan) BITIgnore p)
                  else p)
         in (p, i, l))
      else (p0, i0, l0))"

definition analyzeNet_trailingWildcard :: "Parser \<Rightarrow> int \<Rightarrow> int \<Rightarrow> Parser \<times> int" where
  "analyzeNet_trailingWildcard p0 i l0 =
     (if l0 > 3 \<and> hasBits (cell p0 (i + l0 - 3)) BITAsterisk
         \<and> hasNoBits (cell p0 (i + l0 - 6)) BITPatternToken
      then
        (let p = (if hasNoBits (cell p0 i) BITSlash \<or> hasNoBits (cell p0 (i + l0 - 6)) BITSlash
                  then orSlice (i + l0 - 3) BITIgnore p0 else p0);
             l = l0 - 3;
             p = setL patternSpan l p;
             p = (if spL p patternRightAnchorSpan \<noteq> 0
                  then clearFlavor BITFlavorNetRightAnchor
                         (orSlice (spI p patternRightAnchorSpan) BITIgnore p)
                  else p)
         in (p, l))
      else (p0, l0))"

definition analyzeNet_pointlessLeft :: "Parser \<Rightarrow> int \<Rightarrow> int \<Rightarrow> Parser" where
  "analyzeNet_pointlessLeft p i l =
     (if (l = 0 \<or> l \<noteq> 0 \<and> hasBits (cell p i) BITAsterisk)
         \<and> hasBits (flavorBits p) BITFlavorNetLeftAnchor
      then clearFlavor BITFlavorNetLeftAnchor (orSlice (spI p patternLeftAnchorSpan) BITIgnore p)
      else p)"

definition analyzeNet_pointlessRight :: "Parser \<Rightarrow> int \<Rightarrow> int \<Rightarrow> Parser" where
  "analyzeNet_pointlessRight p i l =
     (if (l = 0 \<or> l \<noteq> 0 \<and> hasBits (cell p (i + l - 3)) BITAsterisk)
         \<and> hasBits (flavorBits p) BITFlavorNetRightAnchor
      then clearFlavor BITFlavorNetRightAnchor (orSlice (spI p patternRightAnchorSpan) BITIgnore p)
      else p)"

definition analyzeNet_wildcards :: "Parser \<Rightarrow> Parser" where
  "analyzeNet_wildcards p0 =
     (let i = spI p0 patternSpan; l = spL p0 patternSpan;
          (p, i, l) = analyzeNet_leadingWildcard p0 i l;
          (p, l) = analyzeNet_trailingWildcard p i l;
          p = analyzeNet_pointlessLeft p i l;
          p = analyzeNet_pointlessRight p i l
      in p)"

definition analyzeNet :: "Parser \<Rightarrow> Parser option" where
  "analyzeNet p0 =
     (let (p, islice) = analyzeNet_exception p0;
          (p, isRegex) = analyzeNet_options p islice;
          p = (if isRegex then orFlavor BITFlavorNetRegex p else p);
          p = analyzeNet_anchors isRegex p
      in case analyzeNet_spaces p of
           None \<Rightarrow> None
         | Some p \<Rightarrow> Some ((analyzeNet_wildcards p)\<lparr>category := CATStaticNetFilter\<rparr>))"


subsection \<open>The entry point\<close>

lemma findFirstMatch_loop_range:
  "findFirstMatch_loop p to bits = r \<Longrightarrow> r = - 1 \<or> (to \<le> r \<and> r < sliceWritePtr p)"
proof (induction p to bits rule: findFirstMatch_loop.induct)
  case (1 p to bits)
  show ?case
  proof (cases "to < sliceWritePtr p")
    case True
    note lt = this
    show ?thesis
    proof (cases "cell p to AND bits \<noteq> 0")
      case True
      with lt "1.prems" show ?thesis
        by (simp add: findFirstMatch_loop.simps [of p to bits])
    next
      case False
      with lt "1.prems" have "findFirstMatch_loop p (to + 3) bits = r"
        by (simp add: findFirstMatch_loop.simps [of p to bits])
      with "1.IH" lt False show ?thesis
        by fastforce
    qed
  next
    case False
    with "1.prems" show ?thesis
      by (simp add: findFirstMatch_loop.simps [of p to bits])
  qed
qed

text \<open>
  The search for an inline comment: a \<open>#\<close> slice that follows a \<open>SPACE\<close> slice. The loop
  only reads the parser until it sets the comment span.
\<close>

function analyze_comment_loop :: "Parser \<Rightarrow> int \<Rightarrow> Parser" where
  "analyze_comment_loop p hashSlot =
     (if hasBits (cell p (hashSlot - 3)) BITSpace then
        setL commentSpan (spI p rightSpaceSpan - hashSlot) (setI commentSpan (hashSlot - 3) p)
      else let h = findFirstMatch p (hashSlot + 6) BITHash in
        if h = - 1 then p else analyze_comment_loop p h)"
  by pat_completeness auto
termination
proof (relation "measure (\<lambda>(p, hashSlot). nat (sliceWritePtr p - hashSlot))")
  show "wf (measure (\<lambda>(p, hashSlot). nat (sliceWritePtr p - hashSlot)))"
    by simp
next
  fix p :: Parser and hashSlot h :: int
  assume "h = findFirstMatch p (hashSlot + 6) BITHash" and "h \<noteq> - 1"
  then have "hashSlot + 6 \<le> h \<and> h < sliceWritePtr p"
    using findFirstMatch_loop_range [of p "hashSlot + 6" BITHash h]
    by (simp add: findFirstMatch_def)
  then show "((p, h), (p, hashSlot)) \<in> measure (\<lambda>(p, hashSlot). nat (sliceWritePtr p - hashSlot))"
    by simp
qed

declare analyze_comment_loop.simps [simp del]

text \<open>\<open>None\<close>: the call does not return (see \<open>analyzeNet_space_loop\<close>).\<close>

definition analyze :: "jsstring \<Rightarrow> Parser \<Rightarrow> Parser option" where
  "analyze line p0 =
     (let p = slice line p0;
          slot = spL p leftSpaceSpan
      in if slot = spI p rightSpaceSpan then Some p
         else if hasBits (cell p slot) BITLineComment then
           (if hasBits (cell p slot) BITHash then
              (let p = analyzeExt slot p in
               if category p = CATStaticExtFilter then Some p
               else Some (p\<lparr>category := CATComment\<rparr>))
            else Some (p\<lparr>category := CATComment\<rparr>))
         else
           let p = setI commentSpan (spI p rightSpaceSpan) p in
           if hasBits (allBits p) BITHash then
             (let hashSlot = findFirstMatch p slot BITHash in
              if hashSlot \<noteq> - 1 then
                (let p = analyzeExt hashSlot p in
                 if category p = CATStaticExtFilter then Some p
                 else analyzeNet (if allBits p AND BITSpace \<noteq> 0
                                  then analyze_comment_loop p hashSlot else p))
              else analyzeNet p)
           else analyzeNet p)"

subsection \<open>Punycode\<close>

datatype jsval = JSUndefined | JSBool bool

text \<open>
  \<open>reHostname\<close>, \<open>/^[^\x00-\x24\x26-\x29\x2B\x2C\x2F\x3A-\x5E\x60\x7B-\x7F]+/\<close>: the longest
  prefix of allowed characters, \<open>None\<close> (the \<open>null\<close> of \<open>exec\<close>) when it is empty.
\<close>

definition reHostname_char :: "nat \<Rightarrow> bool" where
  "reHostname_char c =
     (\<not> (c \<le> 0x24 \<or> 0x26 \<le> c \<and> c \<le> 0x29 \<or> c = 0x2B \<or> c = 0x2C \<or> c = 0x2F
         \<or> 0x3A \<le> c \<and> c \<le> 0x5E \<or> c = 0x60 \<or> 0x7B \<le> c \<and> c \<le> 0x7F))"

definition reHostname_exec :: "jsstring \<Rightarrow> jsstring option" where
  "reHostname_exec s =
     (let m = takeWhile reHostname_char s in if m = [] then None else Some m)"

definition replace_asterisks :: "jsstring \<Rightarrow> jsstring" where
  "replace_asterisks s = concat (map (\<lambda>c. if c = 0x2A then str ''__asterisk__'' else [c]) s)"

fun restore_asterisks :: "jsstring \<Rightarrow> jsstring" where
  "restore_asterisks [] = []"
| "restore_asterisks (c # cs) =
     (if startsWith (c # cs) (str ''__asterisk__'')
      then 0x2A # restore_asterisks (drop 11 cs)
      else c # restore_asterisks cs)"

definition toPunycode :: "Parser \<Rightarrow> (jsval \<times> Parser) option" where
  "toPunycode p0 =
     (if patternHasUnicode p0 = False then Some (JSBool True, p0)
      else
        let i = spI p0 patternSpan; l = spL p0 patternSpan in
        if l = 0 then Some (JSBool True, p0)
        else
          let (pat, p) = getNetPattern p0 in
          case reHostname_exec (pattern p) of
            None \<Rightarrow> Some (JSUndefined, p)
          | Some m \<Rightarrow>
              (case punycoder p (replace_asterisks m) of
                 None \<Rightarrow> Some (JSBool False, p)
               | Some h \<Rightarrow>
                   (let p = p\<lparr>punycoderHostname := h\<rparr>;
                        punycoded = restore_asterisks (punycoderHostname p);
                        pat = punycoded @ js_slice_from (pattern p) (0 + int (length m));
                        beg = cell p (i + 1);
                        end' = cell p (i + l + 1);
                        line = js_slice (raw p) 0 beg @ pat @ js_slice_from (raw p) end'
                    in map_option (\<lambda>q. (JSBool True, q)) (analyze line p))))"


subsection \<open>Domain lists (interactive mode)\<close>

function analyzeDomain_middle :: "int list \<Rightarrow> int \<Rightarrow> int \<Rightarrow> bool" where
  "analyzeDomain_middle sls i to =
     (if i < to - 3 then
        (let bits = aget sls i in
         if hasNoBits bits BITHostname then False
         else if hasBits bits BITPeriod \<and> aget sls (i + 2) > 1 then False
         else if hasBits bits BITDash
                 \<and> (hasNoBits (aget sls (i - 3)) (BITRegexWord OR BITUnicode)
                    \<or> hasNoBits (aget sls (i + 3)) (BITRegexWord OR BITUnicode))
         then False
         else analyzeDomain_middle sls (i + 3) to)
      else True)"
  by pat_completeness auto
termination
  by (relation "measure (\<lambda>(sls, i, to). nat (to - i))") auto

declare analyzeDomain_middle.simps [simp del]

definition analyzeDomain :: "Parser \<Rightarrow> int \<Rightarrow> int \<Rightarrow> int \<Rightarrow> bool" where
  "analyzeDomain p from0 to optionBits =
     (let sls = slices p;
          len0 = to - from0
      in if len0 = 0 then False
         else
           let not = hasBits (aget sls from0) BITTilde in
           if not \<and> (optionBits AND 1 = 0 \<or> aget sls (from0 + 2) > 1) then False
           else
             let from = (if not then from0 + 3 else from0);
                 len = (if not then len0 - 3 else len0)
             in if len = 0 then False
                else if len = 3 \<and> not = False \<and> optionBits AND 2 \<noteq> 0
                        \<and> hasBits (aget sls from) BITAsterisk
                then aget sls (from + 2) = 1
                else if hasNoBits (aget sls from) (BITRegexWord OR BITUnicode) then False
                else if len > 3
                        \<and> (let last = to - 3 in
                            if hasBits (aget sls last) BITAsterisk then
                              optionBits AND 1 = 0 \<or> len < 9 \<or> aget sls (last + 2) > 1
                              \<or> hasNoBits (aget sls (last - 3)) BITPeriod
                            else hasNoBits (aget sls (to - 3)) (BITAlphaNum OR BITUnicode))
                then False
                else if len > 6 then analyzeDomain_middle sls (from + 3) to
                else True)"

lemma skipUntil_loop_ge: "skipUntil_loop sls i to bits = Some r \<Longrightarrow> i \<le> r"
proof (induction sls i to bits rule: skipUntil_loop.induct)
  case (1 sls i to bits)
  show ?case
  proof (cases "i = to \<or> aget sls i AND bits \<noteq> 0")
    case True
    with "1.prems" show ?thesis
      by (simp add: skipUntil_loop.simps [of sls i to bits])
  next
    case False
    note nostop = this
    show ?thesis
    proof (cases "to < i \<and> int (length sls) \<le> i")
      case True
      with nostop "1.prems" show ?thesis
        by (simp add: skipUntil_loop.simps [of sls i to bits])
    next
      case False
      with nostop "1.prems" have "skipUntil_loop sls (i + 3) to bits = Some r"
        by (simp add: skipUntil_loop.simps [of sls i to bits])
      with "1.IH" nostop False have "i + 3 \<le> r"
        by blast
      then show ?thesis
        by simp
    qed
  qed
qed

function analyzeDomainList_loop :: "Parser \<Rightarrow> int \<Rightarrow> int \<Rightarrow> int \<Rightarrow> int \<Rightarrow> Parser option" where
  "analyzeDomainList_loop p beg to bitSeparator optionBits =
     (if beg < to then
        (case skipUntil p beg to bitSeparator of
           None \<Rightarrow> None
         | Some e \<Rightarrow>
             (let end' = (if e = - 1 then to else e);
                  p = (if analyzeDomain p beg end' optionBits = False
                       then markSlices beg end' BITError p else p)
              in analyzeDomainList_loop p (end' + 3) to bitSeparator optionBits))
      else Some p)"
  by pat_completeness auto
termination
proof (relation "measure (\<lambda>(p, beg, to, bitSeparator, optionBits). nat (to - beg))")
  show "wf (measure (\<lambda>(p, beg, to, bitSeparator, optionBits). nat (to - beg)))"
    by simp
next
  fix p :: Parser and beg to bitSeparator optionBits e end' :: int and q :: Parser
  assume lt: "beg < to" and e: "skipUntil p beg to bitSeparator = Some e"
    and end': "end' = (if e = - 1 then to else e)"
  from e have "beg + 3 \<le> e"
    using skipUntil_loop_ge [of "slices p" "beg + 3" to bitSeparator e]
    by (simp add: skipUntil_def)
  with lt end' have "beg < end' + 3"
    by (simp split: if_splits)
  with lt show "((q, end' + 3, to, bitSeparator, optionBits), (p, beg, to, bitSeparator, optionBits))
      \<in> measure (\<lambda>(p, beg, to, bitSeparator, optionBits). nat (to - beg))"
    by simp
qed

declare analyzeDomainList_loop.simps [simp del]

definition analyzeDomainList :: "int \<Rightarrow> int \<Rightarrow> int \<Rightarrow> int \<Rightarrow> Parser \<Rightarrow> Parser option" where
  "analyzeDomainList from to bitSeparator optionBits p0 =
     (if from \<ge> to then Some p0
      else
        case analyzeDomainList_loop p0 from to bitSeparator optionBits of
          None \<Rightarrow> None
        | Some p \<Rightarrow>
            Some (if hasBits (cell p (to - 3)) bitSeparator
                  then markSlices (to - 3) to BITError p else p))"

subsection \<open>The iterator over the options of a network filter\<close>

definition OPTTokenInvalid :: int where "OPTTokenInvalid = 0"
definition OPTToken1p :: int where "OPTToken1p = 1"
definition OPTToken3p :: int where "OPTToken3p = 2"
definition OPTTokenAll :: int where "OPTTokenAll = 3"
definition OPTTokenBadfilter :: int where "OPTTokenBadfilter = 4"
definition OPTTokenCname :: int where "OPTTokenCname = 5"
definition OPTTokenCsp :: int where "OPTTokenCsp = 6"
definition OPTTokenCss :: int where "OPTTokenCss = 7"
definition OPTTokenDenyAllow :: int where "OPTTokenDenyAllow = 8"
definition OPTTokenDoc :: int where "OPTTokenDoc = 9"
definition OPTTokenDomain :: int where "OPTTokenDomain = 10"
definition OPTTokenEhide :: int where "OPTTokenEhide = 11"
definition OPTTokenEmpty :: int where "OPTTokenEmpty = 12"
definition OPTTokenFont :: int where "OPTTokenFont = 13"
definition OPTTokenFrame :: int where "OPTTokenFrame = 14"
definition OPTTokenGenericblock :: int where "OPTTokenGenericblock = 15"
definition OPTTokenGhide :: int where "OPTTokenGhide = 16"
definition OPTTokenImage :: int where "OPTTokenImage = 17"
definition OPTTokenImportant :: int where "OPTTokenImportant = 18"
definition OPTTokenInlineFont :: int where "OPTTokenInlineFont = 19"
definition OPTTokenInlineScript :: int where "OPTTokenInlineScript = 20"
definition OPTTokenMedia :: int where "OPTTokenMedia = 21"
definition OPTTokenMp4 :: int where "OPTTokenMp4 = 22"
definition OPTTokenObject :: int where "OPTTokenObject = 23"
definition OPTTokenOther :: int where "OPTTokenOther = 24"
definition OPTTokenPing :: int where "OPTTokenPing = 25"
definition OPTTokenPopunder :: int where "OPTTokenPopunder = 26"
definition OPTTokenPopup :: int where "OPTTokenPopup = 27"
definition OPTTokenRedirect :: int where "OPTTokenRedirect = 28"
definition OPTTokenRedirectRule :: int where "OPTTokenRedirectRule = 29"
definition OPTTokenScript :: int where "OPTTokenScript = 30"
definition OPTTokenShide :: int where "OPTTokenShide = 31"
definition OPTTokenXhr :: int where "OPTTokenXhr = 32"
definition OPTTokenWebrtc :: int where "OPTTokenWebrtc = 33"
definition OPTTokenWebsocket :: int where "OPTTokenWebsocket = 34"

definition OPTCanNegate :: int where "OPTCanNegate = shl 1 8"
definition OPTBlockOnly :: int where "OPTBlockOnly = shl 1 9"
definition OPTAllowOnly :: int where "OPTAllowOnly = shl 1 10"
definition OPTMustAssign :: int where "OPTMustAssign = shl 1 11"
definition OPTAllowMayAssign :: int where "OPTAllowMayAssign = shl 1 12"
definition OPTDomainList :: int where "OPTDomainList = shl 1 13"
definition OPTType :: int where "OPTType = shl 1 14"
definition OPTNetworkType :: int where "OPTNetworkType = shl 1 15"
definition OPTRedirectType :: int where "OPTRedirectType = shl 1 16"
definition OPTNotSupported :: int where "OPTNotSupported = shl 1 17"

definition netOptionTokens :: "(jsstring \<times> int) list" where
  "netOptionTokens = [
    (str ''1p'', OPTToken1p OR OPTCanNegate),
    (str ''first-party'', OPTToken1p OR OPTCanNegate),
    (str ''3p'', OPTToken3p OR OPTCanNegate),
    (str ''third-party'', OPTToken3p OR OPTCanNegate),
    (str ''all'', OPTTokenAll OR OPTType OR OPTNetworkType),
    (str ''badfilter'', OPTTokenBadfilter),
    (str ''cname'', OPTTokenCname OR OPTAllowOnly OR OPTType),
    (str ''csp'', OPTTokenCsp OR OPTMustAssign OR OPTAllowMayAssign),
    (str ''css'', OPTTokenCss OR OPTCanNegate OR OPTType OR OPTNetworkType),
    (str ''stylesheet'', OPTTokenCss OR OPTCanNegate OR OPTType OR OPTNetworkType),
    (str ''denyallow'', OPTTokenDenyAllow OR OPTMustAssign OR OPTDomainList),
    (str ''doc'', OPTTokenDoc OR OPTType OR OPTNetworkType),
    (str ''document'', OPTTokenDoc OR OPTType OR OPTNetworkType),
    (str ''domain'', OPTTokenDomain OR OPTMustAssign OR OPTDomainList),
    (str ''ehide'', OPTTokenEhide OR OPTType),
    (str ''elemhide'', OPTTokenEhide OR OPTType),
    (str ''empty'', OPTTokenEmpty OR OPTBlockOnly OR OPTType OR OPTNetworkType OR OPTBlockOnly
                    OR OPTRedirectType),
    (str ''frame'', OPTTokenFrame OR OPTCanNegate OR OPTType OR OPTNetworkType),
    (str ''subdocument'', OPTTokenFrame OR OPTCanNegate OR OPTType OR OPTNetworkType),
    (str ''font'', OPTTokenFont OR OPTCanNegate OR OPTType OR OPTNetworkType),
    (str ''genericblock'', OPTTokenGenericblock OR OPTNotSupported),
    (str ''ghide'', OPTTokenGhide OR OPTType),
    (str ''generichide'', OPTTokenGhide OR OPTType),
    (str ''image'', OPTTokenImage OR OPTCanNegate OR OPTType OR OPTNetworkType),
    (str ''important'', OPTTokenImportant OR OPTBlockOnly),
    (str ''inline-font'', OPTTokenInlineFont OR OPTType),
    (str ''inline-script'', OPTTokenInlineScript OR OPTType),
    (str ''media'', OPTTokenMedia OR OPTCanNegate OR OPTType OR OPTNetworkType),
    (str ''mp4'', OPTTokenMp4 OR OPTType OR OPTNetworkType OR OPTBlockOnly OR OPTRedirectType),
    (str ''object'', OPTTokenObject OR OPTCanNegate OR OPTType OR OPTNetworkType),
    (str ''object-subrequest'', OPTTokenObject OR OPTCanNegate OR OPTType OR OPTNetworkType),
    (str ''other'', OPTTokenOther OR OPTCanNegate OR OPTType OR OPTNetworkType),
    (str ''ping'', OPTTokenPing OR OPTCanNegate OR OPTType OR OPTNetworkType),
    (str ''beacon'', OPTTokenPing OR OPTCanNegate OR OPTType OR OPTNetworkType),
    (str ''popunder'', OPTTokenPopunder OR OPTType),
    (str ''popup'', OPTTokenPopup OR OPTType),
    (str ''redirect'', OPTTokenRedirect OR OPTMustAssign OR OPTBlockOnly OR OPTRedirectType),
    (str ''redirect-rule'',
       OPTTokenRedirectRule OR OPTMustAssign OR OPTBlockOnly OR OPTRedirectType),
    (str ''script'', OPTTokenScript OR OPTCanNegate OR OPTType OR OPTNetworkType),
    (str ''shide'', OPTTokenShide OR OPTType),
    (str ''specifichide'', OPTTokenShide OR OPTType),
    (str ''xhr'', OPTTokenXhr OR OPTCanNegate OR OPTType OR OPTNetworkType),
    (str ''xmlhttprequest'', OPTTokenXhr OR OPTCanNegate OR OPTType OR OPTNetworkType),
    (str ''webrtc'', OPTTokenWebrtc OR OPTNotSupported),
    (str ''websocket'', OPTTokenWebsocket OR OPTCanNegate OR OPTType OR OPTNetworkType)
  ]"

text \<open>
  The iterator object. \<open>it_value\<close> tells whether \<open>value\<close> is the item (or \<open>undefined\<close>);
  \<open>item_val\<close> is \<open>None\<close> for \<open>undefined\<close>.
\<close>

record NetOptionsIterator =
  it_exception :: bool
  it_interactive :: bool
  optSlices :: "int list"
  writePtr :: int
  readPtr :: int
  item_id :: int
  item_val :: "jsstring option"
  item_not :: bool
  it_value :: bool
  it_done :: bool

definition newNetOptionsIterator :: NetOptionsIterator where
  "newNetOptionsIterator =
     \<lparr>it_exception = False, it_interactive = False, optSlices = [], writePtr = 0, readPtr = 0,
      item_id = OPTTokenInvalid, item_val = None, item_not = False, it_value = False,
      it_done = True\<rparr>"

text \<open>The locals of \<open>init\<close> that its loop changes, with the parser and \<open>optSlices\<close>.\<close>

record init_vars =
  iv_parser :: Parser
  iv_optSlices :: "int list"
  typeCount :: int
  networkTypeCount :: int
  redirectIndex :: int
  cspIndex :: int
  iv_writePtr :: int

text \<open>The inner loop: the end of the current option and its first \<open>=\<close>.\<close>

function init_option_end ::
  "bool \<Rightarrow> int list \<Rightarrow> int \<Rightarrow> int \<Rightarrow> int \<Rightarrow> int \<Rightarrow> int list \<times> int \<times> int"
where
  "init_option_end ia sls lopt ropts i lval =
     (if i < ropts then
        (let bits = aget sls i in
         if hasBits bits BITComma then
           ((if ia \<and> (i = lopt \<or> aget sls (i + 2) > 1)
             then aset sls i (aget sls i OR BITError) else sls), i, lval)
         else init_option_end ia sls lopt ropts (i + 3)
                (if lval = 0 \<and> hasBits bits BITEqual then i else lval))
      else (sls, i, lval))"
  by pat_completeness auto
termination
  by (relation "measure (\<lambda>(ia, sls, lopt, ropts, i, lval). nat (ropts - i))") auto

declare init_option_end.simps [simp del]

text \<open>
  One turn of the outer loop, for the option at \<open>lopt\<close>, in four steps: the negation and
  the end of the option (\<open>init_option_end\<close>), the descriptor of its token validated
  against the context, the counts and the single \<open>redirect\<close> and \<open>csp\<close>, and the record
  written to \<open>optSlices\<close>. The descriptor found in the table is an \<open>int option\<close>, \<open>None\<close> for
  \<open>undefined\<close>.
\<close>

definition init_descriptor :: "bool \<Rightarrow> Parser \<Rightarrow> int \<Rightarrow> int \<Rightarrow> int \<Rightarrow> int \<Rightarrow> bool \<Rightarrow> int" where
  "init_descriptor exc p lopt ltok i lval good0 =
     (let assigned = False;
          (good, assigned) =
            (if good0 \<and> lval \<noteq> 0
             then (let g = (cell p (lval + 2) = 1 \<and> lval + 3 \<noteq> i) in (g, g))
             else (good0, assigned));
          descriptor =
            (if good then
               (let rtok = (if lval = 0 then i else lval);
                    token = js_slice (raw p) (cell p (ltok + 1)) (cell p (rtok + 1))
                in map_of netOptionTokens token)
             else None)
      in case descriptor of
           None \<Rightarrow> OPTTokenInvalid
         | Some d \<Rightarrow>
             if ltok \<noteq> lopt \<and> hasNoBits d OPTCanNegate
                \<or> exc \<and> hasBits d OPTBlockOnly
                \<or> exc = False \<and> hasBits d OPTAllowOnly
                \<or> assigned \<and> hasNoBits d OPTMustAssign
                \<or> assigned = False \<and> hasBits d OPTMustAssign
                   \<and> (exc = False \<or> hasNoBits d OPTAllowMayAssign)
             then OPTTokenInvalid else d)"

definition init_count :: "int \<Rightarrow> init_vars \<Rightarrow> init_vars \<times> int" where
  "init_count descriptor v0 =
     (let v = (if hasBits descriptor OPTType then
                 (let v = v0\<lparr>typeCount := typeCount v0 + 1\<rparr> in
                  if hasBits descriptor OPTNetworkType
                  then v\<lparr>networkTypeCount := networkTypeCount v + 1\<rparr> else v)
               else v0);
          writePtr = iv_writePtr v
      in if hasBits descriptor OPTRedirectType then
           (if redirectIndex v = - 1 then (v\<lparr>redirectIndex := writePtr\<rparr>, descriptor)
            else (v, OPTTokenInvalid))
         else if descriptor AND 0xFF = OPTTokenCsp then
           (if cspIndex v = - 1 then (v\<lparr>cspIndex := writePtr\<rparr>, descriptor)
            else (v, OPTTokenInvalid))
         else (v, descriptor))"

definition init_store :: "bool \<Rightarrow> int \<Rightarrow> int \<Rightarrow> int \<Rightarrow> int \<Rightarrow> int \<Rightarrow> init_vars \<Rightarrow> init_vars option" where
  "init_store ia lopt ltok i lval descriptor v =
     (let p = iv_parser v;
          writePtr = iv_writePtr v;
          p = (if ia \<and> (descriptor = OPTTokenInvalid \<or> hasBits descriptor OPTNotSupported)
               then markSlices lopt i BITError p else p);
          os = iv_optSlices v;
          os = aset os (writePtr + 0) descriptor;
          os = aset os (writePtr + 1) lopt;
          os = aset os (writePtr + 2) ltok;
          (os, po) =
            (if lval \<noteq> 0 then
               (let os = aset os (writePtr + 3) lval;
                    os = aset os (writePtr + 4) (lval + 3)
                in (os, if ia \<and> hasBits descriptor OPTDomainList
                        then analyzeDomainList (lval + 3) i BITPipe
                               (if descriptor AND 0xFF = OPTTokenDomain then 1 else 0) p
                        else Some p))
             else
               (let os = aset os (writePtr + 3) i;
                    os = aset os (writePtr + 4) i
                in (os, Some p)));
          os = aset os (writePtr + 5) i
      in case po of
           None \<Rightarrow> None
         | Some p \<Rightarrow> Some (v\<lparr>iv_parser := p, iv_optSlices := os, iv_writePtr := writePtr + 6\<rparr>))"

definition init_option ::
  "bool \<Rightarrow> bool \<Rightarrow> int \<Rightarrow> int \<Rightarrow> init_vars \<Rightarrow> (init_vars \<times> int) option"
where
  "init_option exc ia ropts lopt v0 =
     (let p = iv_parser v0;
          good = (\<not> (hasBits (cell p lopt) BITTilde \<and> cell p (lopt + 2) > 1));
          ltok = (if hasBits (cell p lopt) BITTilde then lopt + 3 else lopt);
          (sls, i, lval) = init_option_end ia (slices p) lopt ropts ltok 0;
          p = p\<lparr>slices := sls\<rparr>;
          (v, descriptor) = init_count (init_descriptor exc p lopt ltok i lval good) v0
      in map_option (\<lambda>v. (v, i))
           (init_store ia lopt ltok i lval descriptor (v\<lparr>iv_parser := p\<rparr>)))"

lemma init_option_end_ge: "init_option_end ia sls lopt ropts i lval = (sls', i', lval') \<Longrightarrow> i \<le> i'"
proof (induction ia sls lopt ropts i lval rule: init_option_end.induct)
  case (1 ia sls lopt ropts i lval)
  show ?case
  proof (cases "i < ropts \<and> \<not> hasBits (aget sls i) BITComma")
    case True
    with "1.prems" have "init_option_end ia sls lopt ropts (i + 3)
        (if lval = 0 \<and> hasBits (aget sls i) BITEqual then i else lval) = (sls', i', lval')"
      by (simp add: init_option_end.simps [of ia sls lopt ropts i lval])
    with "1.IH" True have "i + 3 \<le> i'"
      by simp
    then show ?thesis
      by simp
  next
    case False
    with "1.prems" show ?thesis
      by (auto simp: init_option_end.simps [of ia sls lopt ropts i lval] Let_def split: if_splits)
  qed
qed

lemma init_option_ge: "init_option exc ia ropts lopt v = Some (v', i) \<Longrightarrow> lopt \<le> i"
proof -
  assume a: "init_option exc ia ropts lopt v = Some (v', i)"
  define ltok where "ltok = (if hasBits (cell (iv_parser v) lopt) BITTilde then lopt + 3 else lopt)"
  obtain sls i' lval where e: "init_option_end ia (slices (iv_parser v)) lopt ropts ltok 0 = (sls, i', lval)"
    by (cases "init_option_end ia (slices (iv_parser v)) lopt ropts ltok 0") auto
  from e have "ltok \<le> i'"
    by (rule init_option_end_ge)
  then have "lopt \<le> i'"
    by (simp add: ltok_def split: if_splits)
  moreover from a e have "i = i'"
    by (auto simp: init_option_def Let_def ltok_def split: prod.splits)
  ultimately show ?thesis
    by simp
qed

function init_loop :: "bool \<Rightarrow> bool \<Rightarrow> int \<Rightarrow> int \<Rightarrow> init_vars \<Rightarrow> init_vars option" where
  "init_loop exc ia ropts lopt v =
     (if lopt < ropts then
        (case init_option exc ia ropts lopt v of
           None \<Rightarrow> None
         | Some (v', i) \<Rightarrow> init_loop exc ia ropts (i + 3) v')
      else Some v)"
  by pat_completeness auto
termination
proof (relation "measure (\<lambda>(exc, ia, ropts, lopt, v). nat (ropts - lopt))")
  show "wf (measure (\<lambda>(exc, ia, ropts, lopt, v). nat (ropts - lopt)))"
    by simp
next
  fix exc ia :: bool and ropts lopt i :: int and v v' :: init_vars and x :: "init_vars \<times> int"
  assume lt: "lopt < ropts" and e: "init_option exc ia ropts lopt v = Some x" and x: "(v', i) = x"
  from e x have "lopt \<le> i"
    using init_option_ge [of exc ia ropts lopt v v' i] by simp
  with lt show "((exc, ia, ropts, i + 3, v'), (exc, ia, ropts, lopt, v))
      \<in> measure (\<lambda>(exc, ia, ropts, lopt, v). nat (ropts - lopt))"
    by simp
qed

declare init_loop.simps [simp del]

text \<open>
  \<open>init\<close> takes the parser and the iterator and returns both; \<open>None\<close> when a call of
  \<open>skipUntil\<close> does not return.
\<close>

definition init :: "Parser \<Rightarrow> NetOptionsIterator \<Rightarrow> (Parser \<times> NetOptionsIterator) option" where
  "init p0 it0 =
     (let it = it0\<lparr>readPtr := 0, writePtr := 0, it_done := (spL p0 optionsSpan = 0)\<rparr> in
      if it_done it then Some (p0, it\<lparr>it_value := False\<rparr>)
      else
        let it = it\<lparr>it_value := True, it_exception := isException p0,
                     it_interactive := interactive p0\<rparr>;
            lopts = spI p0 optionsSpan;
            ropts = lopts + spL p0 optionsSpan
        in case init_loop (it_exception it) (it_interactive it) ropts lopts
                  \<lparr>iv_parser = p0, iv_optSlices = optSlices it, typeCount = 0,
                   networkTypeCount = 0, redirectIndex = - 1, cspIndex = - 1, iv_writePtr = 0\<rparr>
           of
             None \<Rightarrow> None
           | Some v \<Rightarrow>
               (let p = iv_parser v;
                    os = iv_optSlices v;
                    it = it\<lparr>writePtr := iv_writePtr v\<rparr>;
                    p = (if it_interactive it \<and> hasBits (cell p (ropts - 3)) BITComma
                         then orSlice (ropts - 3) BITError p else p);
                    (os, p) =
                      (if cspIndex v \<noteq> - 1 \<and> typeCount v \<noteq> 0 then
                         (let os = aset os (cspIndex v) OPTTokenInvalid
                          in (os, if it_interactive it
                                  then markSlices (aget os (cspIndex v + 1))
                                         (aget os (cspIndex v + 5)) BITError p
                                  else p))
                       else (os, p));
                    (os, p) =
                      (if redirectIndex v \<noteq> - 1 \<and> typeCount v \<noteq> 1 \<and> networkTypeCount v \<noteq> 1
                       then
                         (let os = aset os (redirectIndex v) OPTTokenInvalid
                          in (os, if it_interactive it
                                  then markSlices (aget os (redirectIndex v + 1))
                                         (aget os (redirectIndex v + 5)) BITError p
                                  else p))
                       else (os, p))
                in Some (p, it\<lparr>optSlices := os\<rparr>)))"

definition "next" :: "Parser \<Rightarrow> NetOptionsIterator \<Rightarrow> NetOptionsIterator" where
  "next p it =
     (let i = readPtr it in
      if i = writePtr it then it\<lparr>it_value := False, it_done := True\<rparr>
      else
        let os = optSlices it;
            descriptor = aget os (i + 0);
            it = it\<lparr>item_id := descriptor AND 0xFF,
                     item_not := (aget os (i + 2) \<noteq> aget os (i + 1)),
                     item_val := None\<rparr>;
            it = (if aget os (i + 4) \<noteq> aget os (i + 5)
                  then it\<lparr>item_val := Some (js_slice (raw p) (cell p (aget os (i + 4) + 1))
                                                (cell p (aget os (i + 5) + 1)))\<rparr>
                  else it)
        in it\<lparr>readPtr := i + 6\<rparr>)"

text \<open>
  What a \<open>for ... of\<close> loop over \<open>netOptions()\<close> sees: \<open>init\<close>, then \<open>next\<close> until \<open>done\<close>,
  each item as (id, val, not). \<open>next\<close> only ever adds 6 to \<open>readPtr\<close>: once it is beyond
  \<open>writePtr\<close> the loop never ends, which is \<open>None\<close>.
\<close>

function netOptions_items ::
  "Parser \<Rightarrow> NetOptionsIterator \<Rightarrow> (int \<times> jsstring option \<times> bool) list option"
where
  "netOptions_items p it =
     (let it' = next p it in
      if it_done it' then Some []
      else if writePtr it' < readPtr it' then None
      else map_option (\<lambda>xs. (item_id it', item_val it', item_not it') # xs)
             (netOptions_items p it'))"
  by pat_completeness auto
termination
proof (relation "measure (\<lambda>(p, it). nat (writePtr it - readPtr it))")
  show "wf (measure (\<lambda>(p, it). nat (writePtr it - readPtr it)))"
    by simp
next
  fix p :: Parser and it it' :: NetOptionsIterator
  assume 1: "it' = next p it" and 2: "\<not> it_done it'" and 3: "\<not> writePtr it' < readPtr it'"
  have "readPtr it \<noteq> writePtr it"
  proof
    assume "readPtr it = writePtr it"
    then have "it_done (next p it)"
      by (simp add: next_def)
    with 1 2 show False
      by simp
  qed
  then have "readPtr (next p it) = readPtr it + 6" and "writePtr (next p it) = writePtr it"
    by (simp_all add: next_def Let_def)
  with 1 3 show "((p, it'), (p, it)) \<in> measure (\<lambda>(p, it). nat (writePtr it - readPtr it))"
    by simp
qed

declare netOptions_items.simps [simp del]

definition netOptions :: "Parser \<Rightarrow> NetOptionsIterator
    \<Rightarrow> (Parser \<times> (int \<times> jsstring option \<times> bool) list) option" where
  "netOptions p it =
     (case init p it of
        None \<Rightarrow> None
      | Some (p', it') \<Rightarrow>
          (if it_done it' then Some (p', [])
           else map_option (\<lambda>xs. (p', xs)) (netOptions_items p' it')))"

subsection \<open>The iterator over the tokens of a pattern\<close>

record PatternTokenIterator =
  pt_l :: int
  pt_r :: int
  pt_i :: int
  pt_value :: "(jsstring \<times> int) option"
  pt_done :: bool

definition newPatternTokenIterator :: PatternTokenIterator where
  "newPatternTokenIterator = \<lparr>pt_l = 0, pt_r = 0, pt_i = 0, pt_value = None, pt_done = True\<rparr>"

definition pt_end :: "PatternTokenIterator \<Rightarrow> PatternTokenIterator" where
  "pt_end it = it\<lparr>pt_value := None, pt_done := True\<rparr>"

definition pt_iterator :: "Parser \<Rightarrow> PatternTokenIterator \<Rightarrow> PatternTokenIterator" where
  "pt_iterator p it =
     (let i = spI p patternSpan; l = spL p patternSpan in
      if l = 0 then pt_end it
      else it\<lparr>pt_l := i, pt_r := i + l, pt_i := i, pt_done := False, pt_value := Some ([], 0)\<rparr>)"

text \<open>
  The loops of \<open>next\<close>: the first slice at or after \<open>sl\<close> with a token bit (\<open>None\<close> when
  \<open>r\<close> is reached), the end \<open>sr\<close> of the run of such slices, and the search for a run
  that is accepted.
\<close>

function pt_first :: "Parser \<Rightarrow> int \<Rightarrow> int \<Rightarrow> int option" where
  "pt_first p r sl =
     (if sl \<ge> r then None
      else if hasBits (cell p sl) BITPatternToken then Some sl
      else pt_first p r (sl + 3))"
  by pat_completeness auto
termination
  by (relation "measure (\<lambda>(p, r, sl). nat (r - sl))") auto

declare pt_first.simps [simp del]

function pt_run :: "Parser \<Rightarrow> int \<Rightarrow> int \<Rightarrow> int" where
  "pt_run p r sr =
     (if sr < r \<and> hasBits (cell p sr) BITPatternToken then pt_run p r (sr + 3) else sr)"
  by pat_completeness auto
termination
  by (relation "measure (\<lambda>(p, r, sr). nat (r - sr))") auto

declare pt_run.simps [simp del]

lemma pt_first_ge: "pt_first p r sl = Some x \<Longrightarrow> sl \<le> x \<and> x < r"
proof (induction p r sl rule: pt_first.induct)
  case (1 p r sl)
  show ?case
  proof (cases "sl \<ge> r \<or> hasBits (cell p sl) BITPatternToken")
    case True
    with "1.prems" show ?thesis
      by (auto simp: pt_first.simps [of p r sl] split: if_splits)
  next
    case False
    with "1.prems" have "pt_first p r (sl + 3) = Some x"
      by (simp add: pt_first.simps [of p r sl])
    with "1.IH" False have "sl + 3 \<le> x \<and> x < r"
      by simp
    then show ?thesis
      by simp
  qed
qed

lemma pt_run_ge: "sr \<le> pt_run p r sr"
proof (induction p r sr rule: pt_run.induct)
  case (1 p r sr)
  show ?case
  proof (cases "sr < r \<and> hasBits (cell p sr) BITPatternToken")
    case True
    with "1.IH" have "sr + 3 \<le> pt_run p r (sr + 3)"
      by simp
    with True show ?thesis
      by (simp add: pt_run.simps [of p r sr])
  next
    case False
    then have "pt_run p r sr = sr"
      by (auto simp: pt_run.simps [of p r sr])
    then show ?thesis
      by simp
  qed
qed

function pt_scan :: "Parser \<Rightarrow> int \<Rightarrow> int \<Rightarrow> (int \<times> int) option" where
  "pt_scan p r sl0 =
     (case pt_first p r sl0 of
        None \<Rightarrow> None
      | Some sl \<Rightarrow>
          (let sr = pt_run p r (sl + 3) in
           if (sl = 0 \<or> hasNoBits (cell p (sl - 3)) BITAsterisk)
              \<and> (sr = r \<or> hasNoBits (cell p sr) BITAsterisk
                 \<or> cell p (sr + 1) - cell p (sl + 1) \<ge> maxTokenLength p)
           then Some (sl, sr)
           else pt_scan p r (sr + 3)))"
  by pat_completeness auto
termination
proof (relation "measure (\<lambda>(p, r, sl0). nat (r - sl0))")
  show "wf (measure (\<lambda>(p, r, sl0). nat (r - sl0)))"
    by simp
next
  fix p :: Parser and r sl0 sl sr :: int
  assume f: "pt_first p r sl0 = Some sl" and sr: "sr = pt_run p r (sl + 3)"
  from f have "sl0 \<le> sl \<and> sl < r"
    by (rule pt_first_ge)
  moreover from sr have "sl + 3 \<le> sr"
    using pt_run_ge [of "sl + 3" p r] by simp
  ultimately show "((p, r, sr + 3), (p, r, sl0)) \<in> measure (\<lambda>(p, r, sl0). nat (r - sl0))"
    by simp
qed

declare pt_scan.simps [simp del]

lemma pt_scan_range: "pt_scan p r sl0 = Some (sl, sr) \<Longrightarrow> sl0 \<le> sl \<and> sl < r \<and> sl + 3 \<le> sr"
proof (induction p r sl0 rule: pt_scan.induct)
  case (1 p r sl0)
  from "1.prems" obtain x where x: "pt_first p r sl0 = Some x"
    by (cases "pt_first p r sl0") (simp_all add: pt_scan.simps [of p r sl0])
  then have xr: "sl0 \<le> x \<and> x < r"
    by (rule pt_first_ge)
  define y where "y = pt_run p r (x + 3)"
  have xy: "x + 3 \<le> y"
    unfolding y_def by (rule pt_run_ge)
  show ?case
  proof (cases "(x = 0 \<or> hasNoBits (cell p (x - 3)) BITAsterisk)
              \<and> (y = r \<or> hasNoBits (cell p y) BITAsterisk
                 \<or> cell p (y + 1) - cell p (x + 1) \<ge> maxTokenLength p)")
    case True
    with "1.prems" x have "sl = x \<and> sr = y"
      by (auto simp: pt_scan.simps [of p r sl0] y_def Let_def)
    with xr xy show ?thesis
      by simp
  next
    case False
    with "1.prems" x have "pt_scan p r (y + 3) = Some (sl, sr)"
      by (auto simp: pt_scan.simps [of p r sl0] y_def Let_def)
    with "1.IH" [OF x y_def] False have "y + 3 \<le> sl \<and> sl < r \<and> sl + 3 \<le> sr"
      by (auto simp: y_def)
    with xr xy show ?thesis
      by simp
  qed
qed

text \<open>
  \<open>next\<close> writes the token into the object \<open>value\<close>. After \<open>end()\<close> that field is
  \<open>undefined\<close>, and the assignment \<open>value.token = ...\<close> throws a \<open>TypeError\<close>.
\<close>

datatype error = TypeError

definition pt_next :: "Parser \<Rightarrow> PatternTokenIterator \<Rightarrow> error + PatternTokenIterator" where
  "pt_next p it =
     (case pt_scan p (pt_r it) (pt_i it) of
        None \<Rightarrow> Inr (pt_end it)
      | Some (sl, sr) \<Rightarrow>
          (let it = it\<lparr>pt_i := sr + 3\<rparr>;
               beg = cell p (sl + 1)
           in case pt_value it of
                None \<Rightarrow> Inl TypeError
              | Some v \<Rightarrow>
                  Inr (it\<lparr>pt_value := Some (js_slice (raw p) beg (cell p (sr + 1)),
                                              beg - cell p (pt_l it + 1))\<rparr>)))"

text \<open>
  What a \<open>for ... of\<close> loop over \<open>patternTokens()\<close> sees: the object that
  \<open>[Symbol.iterator]()\<close> returns, then \<open>next\<close> until \<open>done\<close>. The loop returns the tokens
  with the iterator, which the parser keeps for the next line.
\<close>

function pt_collect ::
  "Parser \<Rightarrow> PatternTokenIterator \<Rightarrow> error + ((jsstring \<times> int) list \<times> PatternTokenIterator)"
where
  "pt_collect p it =
     (case pt_next p it of
        Inl e \<Rightarrow> Inl e
      | Inr it' \<Rightarrow>
          if pt_done it' then Inr ([], it')
          else (case pt_collect p it' of
                  Inl e \<Rightarrow> Inl e
                | Inr (ts, it'') \<Rightarrow> Inr (the (pt_value it') # ts, it'')))"
  by pat_completeness auto
termination
proof (relation "measure (\<lambda>(p, it). nat (pt_r it - pt_i it))")
  show "wf (measure (\<lambda>(p, it). nat (pt_r it - pt_i it)))"
    by simp
next
  fix p :: Parser and it it' :: PatternTokenIterator
  assume n: "pt_next p it = Inr it'" and d: "\<not> pt_done it'"
  from n d obtain sl sr where s: "pt_scan p (pt_r it) (pt_i it) = Some (sl, sr)"
    by (cases "pt_scan p (pt_r it) (pt_i it)") (auto simp: pt_next_def pt_end_def)
  then have r: "pt_i it \<le> sl \<and> sl < pt_r it \<and> sl + 3 \<le> sr"
    by (rule pt_scan_range)
  from n s have "pt_i it' = sr + 3 \<and> pt_r it' = pt_r it"
    by (auto simp: pt_next_def Let_def split: option.splits)
  with r show "((p, it'), (p, it)) \<in> measure (\<lambda>(p, it). nat (pt_r it - pt_i it))"
    by simp
qed

declare pt_collect.simps [simp del]

definition patternTokens ::
  "Parser \<Rightarrow> PatternTokenIterator \<Rightarrow> error + ((jsstring \<times> int) list \<times> PatternTokenIterator)"
where
  "patternTokens p it =
     (if category p = CATStaticNetFilter then pt_collect p (pt_iterator p it)
      else Inr ([], it))"


section \<open>Properties\<close>

subsection \<open>What the properties speak about\<close>

text \<open>
  A parser as the constructor leaves it, outside interactive mode, on a host whose
  selector compiler accepts every selector and whose URL object keeps a hostname as it is
  assigned.
\<close>

definition freshParser :: Parser where
  "freshParser = newParser False (\<lambda>s f. (True, \<lambda>r. r)) (\<lambda>h. Some h)"

text \<open>The end-of-line slice: the last slice written, with no bit, length 0, at the end of the line.\<close>

definition eol_sentinel :: "Parser \<Rightarrow> bool" where
  "eol_sentinel p =
     (let e = spI p eolSpan
      in sliceWritePtr p = e + 3 \<and> cell p e = 0 \<and> cell p (e + 1) = int (length (raw p))
         \<and> cell p (e + 2) = 0)"

text \<open>
  Contiguity of the slices below the write pointer, and the sum of their lengths. The
  slice \<open>n\<close> occupies the cells \<open>3 n\<close>, \<open>3 n + 1\<close> and \<open>3 n + 2\<close>.
\<close>

definition contiguous :: "Parser \<Rightarrow> bool" where
  "contiguous p =
     (\<forall>n \<in> {0 ..< nat (sliceWritePtr p div 3) - 1}.
        cell p (3 * int n + 1) + cell p (3 * int n + 2) = cell p (3 * int n + 4))"

definition sumLengths :: "Parser \<Rightarrow> int" where
  "sumLengths p = sum_list (map (\<lambda>n. cell p (3 * int n + 2)) [0 ..< nat (sliceWritePtr p div 3)])"

text \<open>
  Coverage: the lengths of the ten spans add up to the number of cells of the slices
  before the end-of-line slice.
\<close>

definition span_coverage :: "Parser \<Rightarrow> bool" where
  "span_coverage p = (sum_list (map (spL p) all_spans) = sliceWritePtr p - 3)"

text \<open>The regex test of the source, read on the pattern span of a parser.\<close>

definition patternSpanIsRegexShaped :: "Parser \<Rightarrow> bool" where
  "patternSpanIsRegexShaped p =
     (spL p patternSpan \<noteq> 0 \<and> hasBits (cell p (spI p patternSpan)) BITSlash
      \<and> patternLooksRegex p)"

definition isWhitespace :: "nat \<Rightarrow> bool" where
  "isWhitespace c = (c = 0x09 \<or> c = 0x0A \<or> c = 0x0D \<or> c = 0x20)"

subsection \<open>Arrays and bits\<close>

lemma nth_pad:
  assumes "length xs \<le> n" and "j \<le> n"
  shows "(xs @ replicate (n - length xs) (0::int) @ [v]) ! j
         = (if j = n then v else if j < length xs then xs ! j else 0)"
proof (cases "j < length xs")
  case True
  with assms show ?thesis
    by (simp add: nth_append)
next
  case False
  show ?thesis
  proof (cases "j = n")
    case True
    have "(replicate (n - length xs) (0::int) @ [v]) ! (n - length xs) = v"
      by (metis length_replicate nth_append_length)
    with True False show ?thesis
      by (simp add: nth_append)
  next
    case jn: False
    with assms False have "j - length xs < n - length xs"
      by simp
    then have "(replicate (n - length xs) (0::int) @ [v]) ! (j - length xs) = 0"
      by (simp add: nth_append)
    with jn False show ?thesis
      by (simp add: nth_append)
  qed
qed

lemma aget_aset: "0 \<le> k \<Longrightarrow> aget (aset xs k v) j = (if j = k then v else aget xs j)"
proof -
  assume k: "0 \<le> k"
  then obtain n where n: "k = int n"
    using nonneg_int_cases by blast
  show ?thesis
  proof (cases "j < 0")
    case True
    with k show ?thesis
      by (simp add: aget_def)
  next
    case False
    then obtain m where m: "j = int m"
      using nonneg_int_cases by (metis not_le linorder_not_less)
    show ?thesis
    proof (cases "n < length xs")
      case True
      then show ?thesis
        unfolding n m aget_def aset_def by (simp add: nth_list_update)
    next
      case False
      then have e: "aset xs (int n) v = xs @ replicate (n - length xs) 0 @ [v]"
        by (simp add: aset_def)
      from False have len: "length (xs @ replicate (n - length xs) 0 @ [v]) = Suc n"
        by simp
      show ?thesis
      proof (cases "m \<le> n")
        case True
        with False have "(xs @ replicate (n - length xs) 0 @ [v]) ! m
            = (if m = n then v else if m < length xs then xs ! m else 0)"
          by (intro nth_pad) simp_all
        with True show ?thesis
          unfolding n m e aget_def len by simp
      next
        case mn: False
        with False show ?thesis
          unfolding n m e aget_def len by simp
      qed
    qed
  qed
qed


lemma length_aset_ge: "length xs \<le> length (aset xs k v)"
  unfolding aset_def by (cases "k < 0"; cases "k < int (length xs)"; simp)

lemma length_aset_gt: "0 \<le> k \<Longrightarrow> k < int (length (aset xs k v))"
  unfolding aset_def by (cases "k < int (length xs)"; simp)


lemma low_bit_cases:
  assumes "\<And>n. bit (a::int) n \<Longrightarrow> n = 0"
  shows "a = 0 \<or> a = 1"
proof (cases "bit a 0")
  case True
  have "bit a n = bit (1::int) n" for n
  proof (cases "n = 0")
    case True
    with \<open>bit a 0\<close> show ?thesis by simp
  next
    case False
    with assms [of n] show ?thesis by (auto simp: bit_1_iff)
  qed
  then have "a = 1"
    by (intro bit_eqI)
  then show ?thesis by simp
next
  case False
  have "bit a n = bit (0::int) n" for n
  proof (cases "n = 0")
    case True
    with False show ?thesis by simp
  next
    case nz: False
    with assms [of n] show ?thesis by auto
  qed
  then have "a = 0"
    by (intro bit_eqI)
  then show ?thesis by simp
qed

lemma or_eq_1_iff: "(a::int) OR b = 1 \<longleftrightarrow> (a = 0 \<or> a = 1) \<and> (b = 0 \<or> b = 1) \<and> (a = 1 \<or> b = 1)"
proof
  assume h: "a OR b = 1"
  have bits: "(bit a n \<or> bit b n) = (n = 0)" for n
  proof -
    have "bit (a OR b) n = bit (1::int) n"
      by (simp only: h)
    then show ?thesis
      by (simp only: bit_or_iff bit_1_iff)
  qed
  have a: "a = 0 \<or> a = 1"
    by (rule low_bit_cases) (use bits in blast)
  have b: "b = 0 \<or> b = 1"
    by (rule low_bit_cases) (use bits in blast)
  from a b h show "(a = 0 \<or> a = 1) \<and> (b = 0 \<or> b = 1) \<and> (a = 1 \<or> b = 1)"
    by auto
next
  assume "(a = 0 \<or> a = 1) \<and> (b = 0 \<or> b = 1) \<and> (a = 1 \<or> b = 1)"
  then show "a OR b = 1" by auto
qed


subsection \<open>The loop of slice\<close>

lemma slice_loop_mono:
  "slice_loop line sls ptr allB aBits i j = (sls', ptr', allB', i', j')
   \<Longrightarrow> ptr \<le> ptr' \<and> (j \<le> int (length line) \<longrightarrow> j' = int (length line))"
proof (induction line sls ptr allB aBits i j rule: slice_loop.induct)
  case (1 line sls ptr allB aBits i j)
  show ?case
  proof (cases "j < int (length line)")
    case False
    with "1.prems" show ?thesis
      by (simp add: slice_loop.simps [of line sls ptr allB aBits i j])
  next
    case True
    note lt = this
    show ?thesis
    proof (cases "charBits (line ! nat j) \<noteq> aBits")
      case True
      with lt "1.prems" have "slice_loop line
             (aset (aset (aset sls ptr (j - i)) (ptr + 1) (charBits (line ! nat j))) (ptr + 2) j)
             (ptr + 3) (allB OR charBits (line ! nat j)) (charBits (line ! nat j)) j (j + 1)
           = (sls', ptr', allB', i', j')"
        by (simp add: slice_loop.simps [of line sls ptr allB aBits i j] Let_def)
      with "1.IH"(1) [OF lt refl True] lt show ?thesis
        by simp
    next
      case False
      with lt "1.prems" have "slice_loop line sls ptr allB aBits i (j + 1) = (sls', ptr', allB', i', j')"
        by (simp add: slice_loop.simps [of line sls ptr allB aBits i j] Let_def)
      with "1.IH"(2) [OF lt refl False] lt show ?thesis
        by simp
    qed
  qed
qed

definition sliced :: "int list \<Rightarrow> int \<Rightarrow> int \<Rightarrow> bool" where
  "sliced sls ptr i \<longleftrightarrow>
     2 \<le> ptr \<and> ptr mod 3 = 2 \<and> ptr \<le> int (length sls) \<and> aget sls (ptr - 1) = i \<and> aget sls 1 = 0
     \<and> (\<forall>k. 0 \<le> k \<and> k mod 3 = 0 \<and> k + 4 < ptr
            \<longrightarrow> aget sls (k + 1) + aget sls (k + 2) = aget sls (k + 4))"

lemma sliced_step:
  assumes "sliced sls ptr i"
  shows "sliced (aset (aset (aset sls ptr (j - i)) (ptr + 1) b) (ptr + 2) j) (ptr + 3) j"
proof -
  let ?s = "aset (aset (aset sls ptr (j - i)) (ptr + 1) b) (ptr + 2) j"
  from assms have p: "2 \<le> ptr" "ptr mod 3 = 2" "aget sls (ptr - 1) = i" "aget sls 1 = 0"
    and c: "\<And>k. 0 \<le> k \<Longrightarrow> k mod 3 = 0 \<Longrightarrow> k + 4 < ptr
            \<Longrightarrow> aget sls (k + 1) + aget sls (k + 2) = aget sls (k + 4)"
    by (auto simp: sliced_def)
  have g: "aget ?s m = (if m = ptr + 2 then j else if m = ptr + 1 then b
                        else if m = ptr then j - i else aget sls m)" for m
    using p(1) by (simp add: aget_aset)
  have len: "ptr + 3 \<le> int (length ?s)"
    using length_aset_gt [of "ptr + 2" "aset (aset sls ptr (j - i)) (ptr + 1) b" j] p(1) by simp
  have "aget ?s (k + 1) + aget ?s (k + 2) = aget ?s (k + 4)"
    if k: "0 \<le> k" "k mod 3 = 0" "k + 4 < ptr + 3" for k
  proof (cases "k + 4 < ptr")
    case True
    with c [OF k(1,2) True] show ?thesis
      by (simp add: g)
  next
    case False
    with k p(2) have "k = ptr - 2"
      by presburger
    with p show ?thesis
      by (simp add: g)
  qed
  moreover have "(ptr + 3) mod 3 = 2"
    using p(2) by presburger
  ultimately show ?thesis
    using p len unfolding sliced_def by (simp add: g)
qed

lemma slice_loop_sliced:
  "slice_loop line sls ptr allB aBits i j = (sls', ptr', allB', i', j') \<Longrightarrow> sliced sls ptr i
   \<Longrightarrow> sliced sls' ptr' i'"
proof (induction line sls ptr allB aBits i j rule: slice_loop.induct)
  case (1 line sls ptr allB aBits i j)
  show ?case
  proof (cases "j < int (length line)")
    case False
    with "1.prems" show ?thesis
      by (simp add: slice_loop.simps [of line sls ptr allB aBits i j])
  next
    case True
    note lt = this
    show ?thesis
    proof (cases "charBits (line ! nat j) \<noteq> aBits")
      case True
      with lt "1.prems" have "slice_loop line
             (aset (aset (aset sls ptr (j - i)) (ptr + 1) (charBits (line ! nat j))) (ptr + 2) j)
             (ptr + 3) (allB OR charBits (line ! nat j)) (charBits (line ! nat j)) j (j + 1)
           = (sls', ptr', allB', i', j')"
        by (simp add: slice_loop.simps [of line sls ptr allB aBits i j] Let_def)
      with "1.IH"(1) [OF lt refl True] sliced_step [OF "1.prems"(2)] show ?thesis
        by simp
    next
      case False
      with lt "1.prems" have "slice_loop line sls ptr allB aBits i (j + 1) = (sls', ptr', allB', i', j')"
        by (simp add: slice_loop.simps [of line sls ptr allB aBits i j] Let_def)
      with "1.IH"(2) [OF lt refl False] "1.prems"(2) show ?thesis
        by simp
    qed
  qed
qed

text \<open>The slices of a nonempty line, from the result of the loop.\<close>

lemma slice_unfold:
  assumes ne: "line \<noteq> []"
    and L: "slice_loop line (aset (aset (slices p) 0 (charBits (line ! 0))) 1 0) 2
              (charBits (line ! 0)) (charBits (line ! 0)) 0 1 = (sls1, ptr1, allB1, i1, j1)"
  shows "slices (slice line p) = aset (aset (aset (aset sls1 ptr1 (j1 - i1)) (ptr1 + 1) 0) (ptr1 + 2)
                   (int (length line))) (ptr1 + 3) 0"
    and "sliceWritePtr (slice line p) = ptr1 + 4"
    and "allBits (slice line p) = allB1"
    and "raw (slice line p) = line"
    and "category (slice line p) = CATNone"
    and "flavorBits (slice line p) = 0"
    and "patternBits (slice line p) = 0"
    and "pattern (slice line p) = []"
    and "interactive (slice line p) = interactive p"
    and "spI (slice line p) eolSpan = ptr1 + 1"
    and "spL (slice line p) eolSpan = 0"
    and "spI (slice line p) leftSpaceSpan = 0"
    and "spL (slice line p) leftSpaceSpan = (if cell (slice line p) 0 AND BITSpace \<noteq> 0 then 3 else 0)"
    and "spI (slice line p) rightSpaceSpan =
           (if ptr1 - 2 > 0 \<and> cell (slice line p) (ptr1 - 2) AND BITSpace \<noteq> 0 then ptr1 - 2 else ptr1 + 1)"
    and "spL (slice line p) rightSpaceSpan =
           (if ptr1 - 2 > 0 \<and> cell (slice line p) (ptr1 - 2) AND BITSpace \<noteq> 0 then 3 else 0)"
    and "\<And>s. s \<notin> {eolSpan, leftSpaceSpan, rightSpaceSpan}
           \<Longrightarrow> spI (slice line p) s = 0 \<and> spL (slice line p) s = 0"
  using ne L
  by (simp_all add: slice_def Let_def reset_def setI_def setL_def spI_def spL_def cell_def add.commute)

subsection \<open>The slices of a line\<close>

text \<open>
  Well-formed slices: the write pointer is a multiple of 3 within the array, the last
  slice written is the end-of-line slice, the first slice starts at 0, and each slice
  ends where the next one starts.
\<close>

definition wfs :: "Parser \<Rightarrow> bool" where
  "wfs p \<longleftrightarrow>
     6 \<le> sliceWritePtr p \<and> sliceWritePtr p mod 3 = 0
     \<and> sliceWritePtr p \<le> int (length (slices p))
     \<and> spI p eolSpan = sliceWritePtr p - 3
     \<and> cell p 1 = 0
     \<and> cell p (sliceWritePtr p - 2) = int (length (raw p))
     \<and> cell p (sliceWritePtr p - 1) = 0
     \<and> (\<forall>k. 0 \<le> k \<and> k mod 3 = 0 \<and> k + 3 < sliceWritePtr p
            \<longrightarrow> cell p (k + 1) + cell p (k + 2) = cell p (k + 4))"

lemma sliced_start: "sliced (aset (aset xs 0 a) 1 0) 2 0"
proof -
  have "2 \<le> int (length (aset (aset xs 0 a) 1 0))"
    using length_aset_gt [of 1 "aset xs 0 a" 0] by simp
  then show ?thesis
    by (simp add: sliced_def aget_aset)
qed

lemma slice_loop_result:
  assumes ne: "line \<noteq> []"
  obtains sls1 ptr1 allB1 i1 where
    "slice_loop line (aset (aset (slices p) 0 (charBits (line ! 0))) 1 0) 2
       (charBits (line ! 0)) (charBits (line ! 0)) 0 1 = (sls1, ptr1, allB1, i1, int (length line))"
    and "sliced sls1 ptr1 i1"
proof -
  obtain sls1 ptr1 allB1 i1 j1 where
    L: "slice_loop line (aset (aset (slices p) 0 (charBits (line ! 0))) 1 0) 2
       (charBits (line ! 0)) (charBits (line ! 0)) 0 1 = (sls1, ptr1, allB1, i1, j1)"
    by (metis prod_cases5)
  from ne have "1 \<le> int (length line)"
    by (cases line) simp_all
  with slice_loop_mono [OF L] have "j1 = int (length line)"
    by simp
  moreover have "sliced sls1 ptr1 i1"
    using slice_loop_sliced [OF L sliced_start] .
  ultimately show thesis
    using L that by simp
qed

lemma slice_wfs:
  assumes ne: "line \<noteq> []"
  shows "wfs (slice line p)"
proof -
  obtain sls1 ptr1 allB1 i1 where
    L: "slice_loop line (aset (aset (slices p) 0 (charBits (line ! 0))) 1 0) 2
       (charBits (line ! 0)) (charBits (line ! 0)) 0 1 = (sls1, ptr1, allB1, i1, int (length line))"
    and sl: "sliced sls1 ptr1 i1"
    using slice_loop_result [OF ne] by blast
  note u = slice_unfold [OF ne L]
  from sl have p: "2 \<le> ptr1" "ptr1 mod 3 = 2" "aget sls1 (ptr1 - 1) = i1" "aget sls1 1 = 0"
    and c: "\<And>k. 0 \<le> k \<Longrightarrow> k mod 3 = 0 \<Longrightarrow> k + 4 < ptr1
            \<Longrightarrow> aget sls1 (k + 1) + aget sls1 (k + 2) = aget sls1 (k + 4)"
    by (auto simp: sliced_def)
  have g: "cell (slice line p) m =
             (if m = ptr1 + 3 then 0 else if m = ptr1 + 2 then int (length line)
              else if m = ptr1 + 1 then 0 else if m = ptr1 then int (length line) - i1
              else aget sls1 m)" for m
    using p(1) by (simp add: cell_def u(1) aget_aset)
  have len: "ptr1 + 4 \<le> int (length (slices (slice line p)))"
  proof -
    let ?X = "aset (aset (aset sls1 ptr1 (int (length line) - i1)) (ptr1 + 1) 0) (ptr1 + 2)
                (int (length line))"
    have "ptr1 + 3 < int (length (aset ?X (ptr1 + 3) 0))"
      using p(1) by (intro length_aset_gt) simp
    then show ?thesis
      unfolding u(1) by simp
  qed
  have cont: "cell (slice line p) (k + 1) + cell (slice line p) (k + 2) = cell (slice line p) (k + 4)"
    if k: "0 \<le> k" "k mod 3 = 0" "k + 3 < ptr1 + 4" for k
  proof (cases "k + 4 < ptr1")
    case True
    with c [OF k(1,2) True] show ?thesis
      by (simp add: g)
  next
    case False
    with k p(2) have "k = ptr1 - 2"
      by presburger
    with p show ?thesis
      by (simp add: g)
  qed
  have m3: "(ptr1 + 4) mod 3 = 0"
    using p(2) by presburger
  show ?thesis
    unfolding wfs_def u(2) u(4) u(10)
    using p(1) m3 len cont p(4) by (simp add: g)
qed

lemma slice_eol_sentinel:
  assumes ne: "line \<noteq> []"
  shows "eol_sentinel (slice line p)"
proof -
  obtain sls1 ptr1 allB1 i1 where
    L: "slice_loop line (aset (aset (slices p) 0 (charBits (line ! 0))) 1 0) 2
       (charBits (line ! 0)) (charBits (line ! 0)) 0 1 = (sls1, ptr1, allB1, i1, int (length line))"
    and sl: "sliced sls1 ptr1 i1"
    using slice_loop_result [OF ne] by blast
  note u = slice_unfold [OF ne L]
  from sl have p: "2 \<le> ptr1"
    by (auto simp: sliced_def)
  then show ?thesis
    by (simp add: eol_sentinel_def Let_def u cell_def aget_aset)
qed

lemma slice_empty: "slice [] p = (reset p)\<lparr>raw := []\<rparr>"
  by (simp add: slice_def)

subsection \<open>Splitting a slice\<close>

lemma aget_copyWithin:
  assumes "0 \<le> s" "s \<le> e" "0 \<le> t" "t + (e - s) \<le> int (length xs)" "e \<le> int (length xs)"
  shows "aget (copyWithin xs t s e) m =
           (if t \<le> m \<and> m < t + (e - s) then aget xs (m - t + s) else aget xs m)"
    and "length (copyWithin xs t s e) = length xs"
proof -
  obtain s' e' t' where n: "s = int s'" "e = int e'" "t = int t'"
    using assms by (metis nonneg_int_cases order_trans)
  from assms n have b: "s' \<le> e'" "t' + (e' - s') \<le> length xs" "e' \<le> length xs"
    by simp_all
  then have mins: "min t' (length xs) = t'" "min s' (length xs) = s'" "min e' (length xs) = e'"
      "min (e' - s') (length xs - t') = e' - s'"
    by simp_all
  have c: "copyWithin xs t s e = take t' xs @ take (e' - s') (drop s' xs) @ drop (t' + (e' - s')) xs"
    unfolding copyWithin_def Let_def n nat_int mins by (rule refl)
  from b show "length (copyWithin xs t s e) = length xs"
    unfolding c by simp
  show "aget (copyWithin xs t s e) m =
           (if t \<le> m \<and> m < t + (e - s) then aget xs (m - t + s) else aget xs m)"
  proof (cases "0 \<le> m \<and> m < int (length xs)")
    case False
    with b have "aget (copyWithin xs t s e) m = 0"
      unfolding c aget_def by auto
    moreover from False have "aget xs m = 0"
      by (auto simp: aget_def)
    moreover from False assms have "\<not> (t \<le> m \<and> m < t + (e - s))"
      by auto
    ultimately show ?thesis
      by auto
  next
    case True
    then obtain m' where m: "m = int m'" and ml: "m' < length xs"
      by (metis nonneg_int_cases of_nat_less_iff)
    have "(take t' xs @ take (e' - s') (drop s' xs) @ drop (t' + (e' - s')) xs) ! m'
          = (if t' \<le> m' \<and> m' < t' + (e' - s') then xs ! (m' - t' + s') else xs ! m')"
    proof -
      let ?A = "take t' xs" and ?B = "take (e' - s') (drop s' xs)"
        and ?C = "drop (t' + (e' - s')) xs"
      have lA: "length ?A = t'" and lB: "length ?B = e' - s'"
        using b by simp_all
      show ?thesis
      proof (cases "m' < t'")
        case True
        then have "(?A @ ?B @ ?C) ! m' = ?A ! m'"
          using lA by (simp add: nth_append)
        with True show ?thesis
          by simp
      next
        case ge: False
        then have 1: "(?A @ ?B @ ?C) ! m' = (?B @ ?C) ! (m' - t')"
          using lA by (simp add: nth_append)
        show ?thesis
        proof (cases "m' < t' + (e' - s')")
          case True
          with ge have lt: "m' - t' < e' - s'"
            by simp
          then have "(?B @ ?C) ! (m' - t') = ?B ! (m' - t')"
            using lB by (simp add: nth_append)
          also have "\<dots> = xs ! (s' + (m' - t'))"
            using lt b by simp
          finally show ?thesis
            using 1 True ge b by (simp add: add.commute)
        next
          case False
          with ge have nlt: "\<not> m' - t' < e' - s'"
            by simp
          then have "(?B @ ?C) ! (m' - t') = ?C ! (m' - t' - (e' - s'))"
            using lB by (simp add: nth_append)
          also have "\<dots> = xs ! (t' + (e' - s') + (m' - t' - (e' - s')))"
            using b ml by simp
          also have "t' + (e' - s') + (m' - t' - (e' - s')) = m'"
            using False ge by simp
          finally show ?thesis
            using 1 False ge b by simp
        qed
      qed
    qed
    moreover have "(t \<le> m \<and> m < t + (e - s)) = (t' \<le> m' \<and> m' < t' + (e' - s'))"
      unfolding n m using b by auto
    moreover have "t \<le> m \<and> m < t + (e - s) \<Longrightarrow> aget xs (m - t + s) = xs ! (m' - t' + s')"
    proof -
      assume a: "t \<le> m \<and> m < t + (e - s)"
      from a have 1: "nat (m - t + s) = m' - t' + s'"
        unfolding n m by linarith
      from a b have 2: "m' - t' + s' < length xs"
        unfolding n m by linarith
      from a have 3: "0 \<le> m - t + s"
        unfolding n m by linarith
      from 2 have 4: "m - t + s < int (length xs)"
        using 1 3 by linarith
      show ?thesis
        unfolding aget_def using 1 3 4 by simp
    qed
    ultimately show ?thesis
      using ml b unfolding c m aget_def by auto
  qed
qed

lemma splitSlot_fields [simp]:
  "sliceWritePtr (splitSlot slot l p) = sliceWritePtr p + 3"
  "spI (splitSlot slot l p) s = (if spI p s > slot then spI p s + 3 else spI p s)"
  "spL (splitSlot slot l p) s = spL p s"
  "raw (splitSlot slot l p) = raw p"
  "flavorBits (splitSlot slot l p) = flavorBits p"
  "allBits (splitSlot slot l p) = allBits p"
  "patternBits (splitSlot slot l p) = patternBits p"
  "optionsBits (splitSlot slot l p) = optionsBits p"
  "category (splitSlot slot l p) = category p"
  "pattern (splitSlot slot l p) = pattern p"
  "interactive (splitSlot slot l p) = interactive p"
  "result (splitSlot slot l p) = result p"
  "maxTokenLength (splitSlot slot l p) = maxTokenLength p"
  "compileSelector (splitSlot slot l p) = compileSelector p"
  "punycoder (splitSlot slot l p) = punycoder p"
  "punycoderHostname (splitSlot slot l p) = punycoderHostname p"
  by (simp_all add: splitSlot_def Let_def spI_def spL_def)

lemma splitSlot_cell:
  assumes "0 \<le> slot" "slot \<le> sliceWritePtr p" "sliceWritePtr p \<le> int (length (slices p))"
  shows "cell (splitSlot slot l p) m =
           (if m = slot + 2 then l
            else if m = slot + 4 then cell p (slot + 1) + l
            else if m = slot + 5 then cell p (slot + 2) - l
            else if slot + 3 \<le> m \<and> m < sliceWritePtr p + 3 then cell p (m - 3)
            else cell p m)"
    and "sliceWritePtr p + 3 \<le> int (length (slices (splitSlot slot l p)))"
proof -
  define s0 where "s0 = (if sliceWritePtr p + 3 > int (length (slices p))
                         then slices p @ [0, 0, 0] else slices p)"
  define s1 where "s1 = copyWithin s0 (slot + 3) slot (sliceWritePtr p + 3 - 3)"
  have l0: "sliceWritePtr p + 3 \<le> int (length s0)"
    using assms(3) by (simp add: s0_def)
  have z3: "[0, 0, 0] = replicate 3 (0::int)"
    by (simp add: numeral_3_eq_3)
  have g0: "aget s0 k = cell p k" for k
    unfolding s0_def cell_def aget_def z3 by (auto simp: nth_append)
  have g1: "aget s1 k = (if slot + 3 \<le> k \<and> k < sliceWritePtr p + 3 then cell p (k - 3)
                         else cell p k)" for k
    unfolding s1_def using assms l0
    by (simp add: aget_copyWithin g0)
  have l1: "length s1 = length s0"
    unfolding s1_def using assms l0
    by (simp add: aget_copyWithin)
  have e: "slices (splitSlot slot l p) =
             aset (aset (aset s1 (slot + 3 + 1) (aget s1 (slot + 1) + l)) (slot + 3 + 2)
                     (aget (aset s1 (slot + 3 + 1) (aget s1 (slot + 1) + l)) (slot + 2) - l))
               (slot + 2) l"
    by (simp add: splitSlot_def Let_def s1_def s0_def)
  show "cell (splitSlot slot l p) m =
           (if m = slot + 2 then l
            else if m = slot + 4 then cell p (slot + 1) + l
            else if m = slot + 5 then cell p (slot + 2) - l
            else if slot + 3 \<le> m \<and> m < sliceWritePtr p + 3 then cell p (m - 3)
            else cell p m)"
    unfolding cell_def [of "splitSlot slot l p"] e
    using assms(1) by (simp add: aget_aset g1)
  have "length s1 \<le> length (slices (splitSlot slot l p))"
    unfolding e
    by (meson length_aset_ge order_trans)
  with l0 l1 show "sliceWritePtr p + 3 \<le> int (length (slices (splitSlot slot l p)))"
    by simp
qed

definition contig :: "Parser \<Rightarrow> bool" where
  "contig p \<longleftrightarrow>
     (\<forall>k. 0 \<le> k \<and> k mod 3 = 0 \<and> k + 3 < sliceWritePtr p
          \<longrightarrow> cell p (k + 1) + cell p (k + 2) = cell p (k + 4))"

lemma contigD:
  assumes "contig p" and "0 \<le> k" and "k mod 3 = 0" and "k + 3 < sliceWritePtr p"
  shows "cell p (k + 1) + cell p (k + 2) = cell p (k + 4)"
proof -
  from assms(1) have "0 \<le> k \<and> k mod 3 = 0 \<and> k + 3 < sliceWritePtr p
      \<longrightarrow> cell p (k + 1) + cell p (k + 2) = cell p (k + 4)"
    unfolding contig_def by (rule spec)
  with assms(2-) show ?thesis
    by (iprover intro: conjI elim: mp)
qed

lemma splitSlot_contig:
  assumes c: "contig p"
    and s: "0 \<le> slot" "slot mod 3 = 0" "slot + 3 \<le> sliceWritePtr p"
    and w: "sliceWritePtr p mod 3 = 0" "sliceWritePtr p \<le> int (length (slices p))"
  shows "contig (splitSlot slot l p)"
proof -
  have sw: "slot \<le> sliceWritePtr p"
    using s by simp
  note g = splitSlot_cell(1) [OF s(1) sw w(2)]
  let ?q = "splitSlot slot l p"
  have lo: "cell ?q m = cell p m" if "m < slot + 2" for m
    using that by (simp add: g)
  have hi: "cell ?q m = cell p (m - 3)" if "slot + 6 \<le> m" "m < sliceWritePtr p + 3" for m
    using that by (simp add: g)
  have m2: "cell ?q (slot + 2) = l"
    by (simp add: g)
  have m3: "cell ?q (slot + 4) = cell p (slot + 1) + l"
    by (simp add: g)
  have m4: "cell ?q (slot + 5) = cell p (slot + 2) - l"
    by (simp add: g)
  have "cell ?q (k + 1) + cell ?q (k + 2) = cell ?q (k + 4)"
    if k: "0 \<le> k" "k mod 3 = 0" "k + 3 < sliceWritePtr p + 3" for k
  proof -
    have "k + 3 \<le> slot \<or> k = slot \<or> k = slot + 3 \<or> slot + 6 \<le> k"
      using k(2) s(2) by presburger
    then consider "k + 3 \<le> slot" | "k = slot" | "k = slot + 3" | "slot + 6 \<le> k"
      by blast
    then show ?thesis
    proof cases
      case 1
      from 1 s(3) have "k + 3 < sliceWritePtr p"
        by simp
      with c k have "cell p (k + 1) + cell p (k + 2) = cell p (k + 4)"
        by (intro contigD)
      moreover from 1 have "cell ?q (k + 1) = cell p (k + 1)" "cell ?q (k + 2) = cell p (k + 2)"
          "cell ?q (k + 4) = cell p (k + 4)"
        by (simp_all add: lo)
      ultimately show ?thesis
        by simp
    next
      case 2
      have "cell ?q (slot + 1) = cell p (slot + 1)"
        by (simp add: lo)
      with m2 m3 show ?thesis
        unfolding 2 by simp
    next
      case 3
      with k have "slot + 3 < sliceWritePtr p"
        by simp
      with c s have e: "cell p (slot + 1) + cell p (slot + 2) = cell p (slot + 4)"
        by (intro contigD)
      from w(1) s(2) \<open>slot + 3 < sliceWritePtr p\<close> have "slot + 6 \<le> sliceWritePtr p"
        by presburger
      then have "cell ?q (slot + 7) = cell p (slot + 7 - 3)"
        by (intro hi) simp_all
      then have "cell ?q (slot + 3 + 4) = cell p (slot + 4)"
        by (simp add: add.commute)
      moreover have "cell ?q (slot + 3 + 1) = cell p (slot + 1) + l"
        "cell ?q (slot + 3 + 2) = cell p (slot + 2) - l"
        using m3 m4 by (simp_all add: add.commute)
      ultimately show ?thesis
        unfolding 3 using e by simp
    next
      case 4
      have f1: "(k - 3) mod 3 = 0"
        using k(2) by presburger
      have f2: "0 \<le> k - 3" and f3: "(k - 3) + 3 < sliceWritePtr p"
        using 4 k(3) s(1) by simp_all
      have "cell p (k - 3 + 1) + cell p (k - 3 + 2) = cell p (k - 3 + 4)"
        using c f2 f1 f3 by (rule contigD)
      then have e: "cell p (k + 1 - 3) + cell p (k + 2 - 3) = cell p (k + 4 - 3)"
        by (simp add: algebra_simps)
      from k(3) have "k < sliceWritePtr p"
        by simp
      with k(2) w(1) have "k + 4 < sliceWritePtr p + 3"
        by presburger
      with 4 have "cell ?q (k + 1) = cell p (k + 1 - 3)" "cell ?q (k + 2) = cell p (k + 2 - 3)"
          "cell ?q (k + 4) = cell p (k + 4 - 3)"
        by (intro hi; simp)+
      with e show ?thesis
        by simp
    qed
  qed
  then show ?thesis
    by (simp add: contig_def)
qed

subsection \<open>The sum of the lengths\<close>

lemma contiguous_iff_contig:
  assumes "sliceWritePtr p mod 3 = 0"
  shows "contiguous p \<longleftrightarrow> contig p"
proof
  assume c: "contiguous p"
  show "contig p"
    unfolding contig_def
  proof (intro allI impI)
    fix k :: int
    assume k: "0 \<le> k \<and> k mod 3 = 0 \<and> k + 3 < sliceWritePtr p"
    then have "0 \<le> k div 3"
      by presburger
    then obtain n where "k div 3 = int n"
      using nonneg_int_cases by blast
    with k have n: "k = 3 * int n"
      by presburger
    from k n assms have "int n + 1 < sliceWritePtr p div 3"
      by presburger
    then have "n < nat (sliceWritePtr p div 3) - 1"
      by linarith
    with c have "cell p (3 * int n + 1) + cell p (3 * int n + 2) = cell p (3 * int n + 4)"
      by (simp add: contiguous_def)
    then show "cell p (k + 1) + cell p (k + 2) = cell p (k + 4)"
      by (simp add: n)
  qed
next
  assume c: "contig p"
  show "contiguous p"
    unfolding contiguous_def
  proof
    fix n assume "n \<in> {0 ..< nat (sliceWritePtr p div 3) - 1}"
    then have "int n + 1 < sliceWritePtr p div 3"
      by auto
    then have "3 * int n + 3 < sliceWritePtr p"
      using assms by presburger
    moreover have "(3 * int n) mod 3 = 0" "0 \<le> 3 * int n"
      by simp_all
    ultimately show "cell p (3 * int n + 1) + cell p (3 * int n + 2) = cell p (3 * int n + 4)"
      using c by (intro contigD)
  qed
qed

lemma sum_origin:
  assumes c: "contig p"
  shows "3 * int m + 3 \<le> sliceWritePtr p
         \<Longrightarrow> sum_list (map (\<lambda>n. cell p (3 * int n + 2)) [0 ..< m]) = cell p (3 * int m + 1) - cell p 1"
proof (induction m)
  case 0
  show ?case by simp
next
  case (Suc m)
  then have lt: "3 * int m + 3 < sliceWritePtr p"
    by simp
  with Suc have "sum_list (map (\<lambda>n. cell p (3 * int n + 2)) [0 ..< m]) = cell p (3 * int m + 1) - cell p 1"
    by simp
  moreover have "cell p (3 * int m + 1) + cell p (3 * int m + 2) = cell p (3 * int m + 4)"
    using c _ _ lt by (rule contigD) simp_all
  ultimately show ?case
    by (simp add: algebra_simps)
qed

lemma sumLengths_ends:
  assumes c: "contig p" and w: "sliceWritePtr p mod 3 = 0" "3 \<le> sliceWritePtr p"
  shows "sumLengths p = cell p (sliceWritePtr p - 2) + cell p (sliceWritePtr p - 1) - cell p 1"
proof -
  from w obtain N where N: "sliceWritePtr p = 3 * int N + 3"
  proof -
    from w have "0 \<le> sliceWritePtr p div 3 - 1"
      by presburger
    then obtain N where "sliceWritePtr p div 3 - 1 = int N"
      using nonneg_int_cases by blast
    with w(1) have "sliceWritePtr p = 3 * int N + 3"
      by presburger
    then show thesis
      by (rule that)
  qed
  then have n: "nat (sliceWritePtr p div 3) = Suc N"
    by simp
  have "sum_list (map (\<lambda>n. cell p (3 * int n + 2)) [0 ..< N]) = cell p (3 * int N + 1) - cell p 1"
    using c by (rule sum_origin) (simp add: N)
  then show ?thesis
    unfolding sumLengths_def n by (simp add: N add.commute)
qed

lemma splitSlot_sumLengths:
  assumes c: "contig p"
    and s: "0 \<le> slot" "slot mod 3 = 0" "slot + 3 \<le> sliceWritePtr p"
    and w: "sliceWritePtr p mod 3 = 0" "sliceWritePtr p \<le> int (length (slices p))"
  shows "sumLengths (splitSlot slot l p) = sumLengths p"
proof -
  have sw: "slot \<le> sliceWritePtr p" and w3: "3 \<le> sliceWritePtr p"
    using s by simp_all
  note g = splitSlot_cell(1) [OF s(1) sw w(2)]
  let ?q = "splitSlot slot l p" and ?w = "sliceWritePtr p"
  have c': "contig ?q"
    using c s w by (rule splitSlot_contig)
  have 1: "sumLengths ?q = cell ?q (?w + 3 - 2) + cell ?q (?w + 3 - 1) - cell ?q 1"
    using sumLengths_ends [OF c'] w(1) w3 by simp
  have 2: "sumLengths p = cell p (?w - 2) + cell p (?w - 1) - cell p 1"
    using c w(1) w3 by (rule sumLengths_ends)
  have "slot + 3 = ?w \<or> slot + 6 \<le> ?w"
    using s(2,3) w(1) by presburger
  then have "cell ?q (?w + 3 - 2) + cell ?q (?w + 3 - 1) = cell p (?w - 2) + cell p (?w - 1)"
  proof
    assume e: "slot + 3 = ?w"
    then have "?w + 3 - 2 = slot + 4" "?w + 3 - 1 = slot + 5" "?w - 2 = slot + 1" "?w - 1 = slot + 2"
      by simp_all
    then show ?thesis
      by (simp add: g add.commute)
  next
    assume "slot + 6 \<le> ?w"
    then show ?thesis
      by (simp add: g add.commute)
  qed
  moreover have "cell ?q 1 = cell p 1"
    using s(1) by (simp add: g)
  ultimately show ?thesis
    using 1 2 by simp
qed

subsection \<open>Contiguity (C1) and the end-of-line slice (C4)\<close>

lemma wfs_contig: "wfs p \<Longrightarrow> contig p"
  unfolding wfs_def contig_def by (elim conjE) assumption

lemma contig_contiguous: "contig p \<Longrightarrow> sliceWritePtr p mod 3 = 0 \<Longrightarrow> contiguous p"
  by (simp only: contiguous_iff_contig)

lemma contiguous_contig: "contiguous p \<Longrightarrow> sliceWritePtr p mod 3 = 0 \<Longrightarrow> contig p"
  by (simp only: contiguous_iff_contig)

lemma slice_raw: "raw (slice line p) = line"
  by (cases "line = []") (simp_all add: slice_def Let_def setI_def setL_def split: prod.splits)

lemma slice_contiguous_sum:
  "contiguous (slice line p) \<and> sumLengths (slice line p) = int (length line)"
proof (intro conjI)
  show "contiguous (slice line p)"
  proof (cases "line = []")
    case True
    then show ?thesis
      by (simp add: slice_def contiguous_def reset_def)
  next
    case False
    then have w: "wfs (slice line p)"
      by (rule slice_wfs)
    then have "sliceWritePtr (slice line p) mod 3 = 0"
      by (simp add: wfs_def)
    with wfs_contig [OF w] show ?thesis
      by (rule contig_contiguous)
  qed
next
  show "sumLengths (slice line p) = int (length line)"
  proof (cases "line = []")
    case True
    then show ?thesis
      by (simp add: slice_def sumLengths_def reset_def)
  next
    case False
    then have w: "wfs (slice line p)"
      by (rule slice_wfs)
    let ?p = "slice line p"
    from w have "sliceWritePtr ?p mod 3 = 0" "3 \<le> sliceWritePtr ?p"
      by (simp_all add: wfs_def)
    with wfs_contig [OF w]
    have "sumLengths ?p = cell ?p (sliceWritePtr ?p - 2) + cell ?p (sliceWritePtr ?p - 1) - cell ?p 1"
      by (rule sumLengths_ends)
    with w show ?thesis
      by (simp add: wfs_def slice_raw)
  qed
qed

text \<open>
  C4, amended. For every line that is not empty, \<open>slice\<close> ends the slices with an
  end-of-line slice that has no bit, length 0 and the length of the line as its origin.
\<close>

theorem nonempty_line_has_sentinel:
  "line \<noteq> [] \<Longrightarrow> eol_sentinel (slice line p) \<and> raw (slice line p) = line"
  by (simp add: slice_eol_sentinel slice_raw)

theorem nonempty_line_has_sentinel_witness:
  "eol_sentinel (slice (str ''a'') freshParser) \<and> raw (slice (str ''a'') freshParser) = str ''a''"
  using nonempty_line_has_sentinel [of "str ''a''" freshParser]
  by (simp add: str_def)

subsection \<open>What the primitive operations change\<close>

lemma setI_fields [simp]:
  "interactive (setI s v p) = interactive p"
  "raw (setI s v p) = raw p"
  "slices (setI s v p) = slices p"
  "maxTokenLength (setI s v p) = maxTokenLength p"
  "result (setI s v p) = result p"
  "sliceWritePtr (setI s v p) = sliceWritePtr p"
  "category (setI s v p) = category p"
  "allBits (setI s v p) = allBits p"
  "patternBits (setI s v p) = patternBits p"
  "optionsBits (setI s v p) = optionsBits p"
  "flavorBits (setI s v p) = flavorBits p"
  "pattern (setI s v p) = pattern p"
  "compileSelector (setI s v p) = compileSelector p"
  "punycoder (setI s v p) = punycoder p"
  "punycoderHostname (setI s v p) = punycoderHostname p"
  by (simp_all add: setI_def)

lemma setL_fields [simp]:
  "interactive (setL s v p) = interactive p"
  "raw (setL s v p) = raw p"
  "slices (setL s v p) = slices p"
  "maxTokenLength (setL s v p) = maxTokenLength p"
  "result (setL s v p) = result p"
  "sliceWritePtr (setL s v p) = sliceWritePtr p"
  "category (setL s v p) = category p"
  "allBits (setL s v p) = allBits p"
  "patternBits (setL s v p) = patternBits p"
  "optionsBits (setL s v p) = optionsBits p"
  "flavorBits (setL s v p) = flavorBits p"
  "pattern (setL s v p) = pattern p"
  "compileSelector (setL s v p) = compileSelector p"
  "punycoder (setL s v p) = punycoder p"
  "punycoderHostname (setL s v p) = punycoderHostname p"
  by (simp_all add: setL_def)

lemma orSlice_fields [simp]:
  "interactive (orSlice k b p) = interactive p"
  "raw (orSlice k b p) = raw p"
  "spans (orSlice k b p) = spans p"
  "maxTokenLength (orSlice k b p) = maxTokenLength p"
  "result (orSlice k b p) = result p"
  "sliceWritePtr (orSlice k b p) = sliceWritePtr p"
  "category (orSlice k b p) = category p"
  "allBits (orSlice k b p) = allBits p"
  "patternBits (orSlice k b p) = patternBits p"
  "optionsBits (orSlice k b p) = optionsBits p"
  "flavorBits (orSlice k b p) = flavorBits p"
  "pattern (orSlice k b p) = pattern p"
  "compileSelector (orSlice k b p) = compileSelector p"
  "punycoder (orSlice k b p) = punycoder p"
  "punycoderHostname (orSlice k b p) = punycoderHostname p"
  by (simp_all add: orSlice_def)

lemma orFlavor_fields [simp]:
  "interactive (orFlavor b p) = interactive p"
  "raw (orFlavor b p) = raw p"
  "slices (orFlavor b p) = slices p"
  "spans (orFlavor b p) = spans p"
  "maxTokenLength (orFlavor b p) = maxTokenLength p"
  "result (orFlavor b p) = result p"
  "sliceWritePtr (orFlavor b p) = sliceWritePtr p"
  "category (orFlavor b p) = category p"
  "allBits (orFlavor b p) = allBits p"
  "patternBits (orFlavor b p) = patternBits p"
  "optionsBits (orFlavor b p) = optionsBits p"
  "pattern (orFlavor b p) = pattern p"
  "compileSelector (orFlavor b p) = compileSelector p"
  "punycoder (orFlavor b p) = punycoder p"
  "punycoderHostname (orFlavor b p) = punycoderHostname p"
  by (simp_all add: orFlavor_def)

lemma clearFlavor_fields [simp]:
  "interactive (clearFlavor b p) = interactive p"
  "raw (clearFlavor b p) = raw p"
  "slices (clearFlavor b p) = slices p"
  "spans (clearFlavor b p) = spans p"
  "maxTokenLength (clearFlavor b p) = maxTokenLength p"
  "result (clearFlavor b p) = result p"
  "sliceWritePtr (clearFlavor b p) = sliceWritePtr p"
  "category (clearFlavor b p) = category p"
  "allBits (clearFlavor b p) = allBits p"
  "patternBits (clearFlavor b p) = patternBits p"
  "optionsBits (clearFlavor b p) = optionsBits p"
  "pattern (clearFlavor b p) = pattern p"
  "compileSelector (clearFlavor b p) = compileSelector p"
  "punycoder (clearFlavor b p) = punycoder p"
  "punycoderHostname (clearFlavor b p) = punycoderHostname p"
  by (simp_all add: clearFlavor_def)

lemma BITFlavorUnsupportedOr_fields [simp]:
  "interactive (BITFlavorUnsupportedOr p) = interactive p"
  "raw (BITFlavorUnsupportedOr p) = raw p"
  "slices (BITFlavorUnsupportedOr p) = slices p"
  "spans (BITFlavorUnsupportedOr p) = spans p"
  "maxTokenLength (BITFlavorUnsupportedOr p) = maxTokenLength p"
  "result (BITFlavorUnsupportedOr p) = result p"
  "sliceWritePtr (BITFlavorUnsupportedOr p) = sliceWritePtr p"
  "category (BITFlavorUnsupportedOr p) = category p"
  "allBits (BITFlavorUnsupportedOr p) = allBits p"
  "patternBits (BITFlavorUnsupportedOr p) = patternBits p"
  "optionsBits (BITFlavorUnsupportedOr p) = optionsBits p"
  "pattern (BITFlavorUnsupportedOr p) = pattern p"
  "compileSelector (BITFlavorUnsupportedOr p) = compileSelector p"
  "punycoder (BITFlavorUnsupportedOr p) = punycoder p"
  "punycoderHostname (BITFlavorUnsupportedOr p) = punycoderHostname p"
  by (simp_all add: BITFlavorUnsupportedOr_def)

lemma markSlices_fields [simp]:
  "interactive (markSlices b e bits p) = interactive p"
  "raw (markSlices b e bits p) = raw p"
  "spans (markSlices b e bits p) = spans p"
  "maxTokenLength (markSlices b e bits p) = maxTokenLength p"
  "result (markSlices b e bits p) = result p"
  "sliceWritePtr (markSlices b e bits p) = sliceWritePtr p"
  "category (markSlices b e bits p) = category p"
  "allBits (markSlices b e bits p) = allBits p"
  "patternBits (markSlices b e bits p) = patternBits p"
  "optionsBits (markSlices b e bits p) = optionsBits p"
  "flavorBits (markSlices b e bits p) = flavorBits p"
  "pattern (markSlices b e bits p) = pattern p"
  "compileSelector (markSlices b e bits p) = compileSelector p"
  "punycoder (markSlices b e bits p) = punycoder p"
  "punycoderHostname (markSlices b e bits p) = punycoderHostname p"
  by (simp_all add: markSlices_def)

lemma markSpan_fields [simp]:
  "interactive (markSpan s bits p) = interactive p"
  "raw (markSpan s bits p) = raw p"
  "spans (markSpan s bits p) = spans p"
  "maxTokenLength (markSpan s bits p) = maxTokenLength p"
  "result (markSpan s bits p) = result p"
  "sliceWritePtr (markSpan s bits p) = sliceWritePtr p"
  "category (markSpan s bits p) = category p"
  "allBits (markSpan s bits p) = allBits p"
  "patternBits (markSpan s bits p) = patternBits p"
  "optionsBits (markSpan s bits p) = optionsBits p"
  "flavorBits (markSpan s bits p) = flavorBits p"
  "pattern (markSpan s bits p) = pattern p"
  "compileSelector (markSpan s bits p) = compileSelector p"
  "punycoder (markSpan s bits p) = punycoder p"
  "punycoderHostname (markSpan s bits p) = punycoderHostname p"
  by (simp_all add: markSpan_def markSlices_def)


lemma setI_spans [simp]:
  "spI (setI s v p) t = (if t = s then v else spI p t)"
  "spL (setI s v p) t = spL p t"
  "cell (setI s v p) m = cell p m"
  by (simp_all add: setI_def spI_def spL_def cell_def)

lemma setL_spans [simp]:
  "spL (setL s v p) t = (if t = s then v else spL p t)"
  "spI (setL s v p) t = spI p t"
  "cell (setL s v p) m = cell p m"
  by (simp_all add: setL_def spI_def spL_def cell_def)

lemma flavor_setters [simp]:
  "flavorBits (orFlavor b p) = flavorBits p OR b"
  "flavorBits (clearFlavor b p) = flavorBits p AND NOT b"
  "flavorBits (BITFlavorUnsupportedOr p) = flavorBits p OR BITFlavorUnsupported"
  "spI (orFlavor b p) t = spI p t" "spL (orFlavor b p) t = spL p t" "cell (orFlavor b p) m = cell p m"
  "spI (clearFlavor b p) t = spI p t" "spL (clearFlavor b p) t = spL p t"
  "cell (clearFlavor b p) m = cell p m"
  "spI (BITFlavorUnsupportedOr p) t = spI p t" "spL (BITFlavorUnsupportedOr p) t = spL p t"
  "cell (BITFlavorUnsupportedOr p) m = cell p m"
  by (simp_all add: orFlavor_def clearFlavor_def BITFlavorUnsupportedOr_def spI_def spL_def cell_def)

lemma orSlice_spans [simp]:
  "spI (orSlice k b p) t = spI p t" "spL (orSlice k b p) t = spL p t"
  by (simp_all add: orSlice_def spI_def spL_def)

lemma aget_aset_neg: "k < 0 \<Longrightarrow> aset xs k v = xs"
  by (simp add: aset_def)

lemma orSlice_cell:
  "cell (orSlice k b p) m = (if m = k \<and> 0 \<le> k then cell p k OR b else cell p m)"
  by (cases "0 \<le> k") (simp_all add: orSlice_def cell_def aget_aset aget_aset_neg)

lemma orSlice_length: "length (slices p) \<le> length (slices (orSlice k b p))"
  by (simp add: orSlice_def length_aset_ge)

lemma markSlices_spans [simp]:
  "spI (markSlices b e bits p) t = spI p t" "spL (markSlices b e bits p) t = spL p t"
  "spI (markSpan s bits p) t = spI p t" "spL (markSpan s bits p) t = spL p t"
  by (simp_all add: markSlices_def markSpan_def spI_def spL_def)

lemma markSlices_loop_aget:
  "aget (markSlices_loop sls beg e bits) m =
     (if 0 \<le> m \<and> beg \<le> m \<and> m < e \<and> (m - beg) mod 3 = 0 then aget sls m OR bits else aget sls m)"
proof (induction sls beg e bits rule: markSlices_loop.induct)
  case (1 sls beg e bits)
  show ?case
  proof (cases "beg < e")
    case False
    then show ?thesis
      by (simp add: markSlices_loop.simps [of sls beg e bits])
  next
    case True
    then have u: "markSlices_loop sls beg e bits
        = markSlices_loop (aset sls beg (aget sls beg OR bits)) (beg + 3) e bits"
      by (simp add: markSlices_loop.simps [of sls beg e bits])
    have a: "aget (aset sls beg (aget sls beg OR bits)) m
             = (if m = beg \<and> 0 \<le> beg then aget sls beg OR bits else aget sls m)"
      by (cases "0 \<le> beg") (simp_all add: aget_aset aget_aset_neg)
    have b: "(0 \<le> m \<and> beg \<le> m \<and> m < e \<and> (m - beg) mod 3 = 0)
             = (0 \<le> m \<and> m = beg \<or> 0 \<le> m \<and> beg + 3 \<le> m \<and> m < e \<and> (m - (beg + 3)) mod 3 = 0)"
      using True by presburger
    show ?thesis
      unfolding u "1.IH" [OF True] a b by auto
  qed
qed

lemma markSlices_cell:
  "cell (markSlices beg e bits p) m =
     (if 0 \<le> m \<and> beg \<le> m \<and> m < e \<and> (m - beg) mod 3 = 0 then cell p m OR bits else cell p m)"
  by (simp add: markSlices_def cell_def markSlices_loop_aget)

lemma markSlices_loop_length: "length sls \<le> length (markSlices_loop sls beg e bits)"
proof (induction sls beg e bits rule: markSlices_loop.induct)
  case (1 sls beg e bits)
  show ?case
  proof (cases "beg < e")
    case False
    then show ?thesis
      by (simp add: markSlices_loop.simps [of sls beg e bits])
  next
    case True
    then have u: "markSlices_loop sls beg e bits
        = markSlices_loop (aset sls beg (aget sls beg OR bits)) (beg + 3) e bits"
      by (simp add: markSlices_loop.simps [of sls beg e bits])
    from "1.IH" [OF True] length_aset_ge [of sls beg "aget sls beg OR bits"] show ?thesis
      unfolding u by simp
  qed
qed

lemma markSlices_length: "length (slices p) \<le> length (slices (markSlices beg e bits p))"
  by (simp add: markSlices_def markSlices_loop_length)

lemma getNetPattern_fields [simp]:
  "interactive (snd (getNetPattern p)) = interactive p"
  "raw (snd (getNetPattern p)) = raw p"
  "slices (snd (getNetPattern p)) = slices p"
  "spans (snd (getNetPattern p)) = spans p"
  "maxTokenLength (snd (getNetPattern p)) = maxTokenLength p"
  "result (snd (getNetPattern p)) = result p"
  "sliceWritePtr (snd (getNetPattern p)) = sliceWritePtr p"
  "category (snd (getNetPattern p)) = category p"
  "allBits (snd (getNetPattern p)) = allBits p"
  "patternBits (snd (getNetPattern p)) = patternBits p"
  "optionsBits (snd (getNetPattern p)) = optionsBits p"
  "flavorBits (snd (getNetPattern p)) = flavorBits p"
  "compileSelector (snd (getNetPattern p)) = compileSelector p"
  "punycoder (snd (getNetPattern p)) = punycoder p"
  "punycoderHostname (snd (getNetPattern p)) = punycoderHostname p"
  "spI (snd (getNetPattern p)) t = spI p t"
  "spL (snd (getNetPattern p)) t = spL p t"
  "cell (snd (getNetPattern p)) m = cell p m"
  by (simp_all add: getNetPattern_def Let_def spI_def spL_def cell_def split: prod.splits)

subsection \<open>What the analysis leaves unchanged\<close>

text \<open>The fields that nothing changes between \<open>slice\<close> and the end of the analysis.\<close>

definition static :: "Parser \<Rightarrow> bool \<times> jsstring \<times> int \<times> int
    \<times> (jsstring \<Rightarrow> int \<Rightarrow> bool \<times> (Result \<Rightarrow> Result)) \<times> (jsstring \<Rightarrow> jsstring option) \<times> jsstring" where
  "static p = (interactive p, raw p, maxTokenLength p, allBits p, compileSelector p, punycoder p,
               punycoderHostname p)"

lemma static_prims [simp]:
  "static (setI s v p) = static p"
  "static (setL s v p) = static p"
  "static (orSlice k b p) = static p"
  "static (orFlavor b p) = static p"
  "static (clearFlavor b p) = static p"
  "static (BITFlavorUnsupportedOr p) = static p"
  "static (markSlices beg e bits p) = static p"
  "static (splitSlot slot l p) = static p"
  "static (snd (getNetPattern p)) = static p"
  "static (p\<lparr>category := c\<rparr>) = static p"
  "static (p\<lparr>flavorBits := fb\<rparr>) = static p"
  "static (p\<lparr>patternBits := pb\<rparr>) = static p"
  "static (p\<lparr>optionsBits := ob\<rparr>) = static p"
  "static (p\<lparr>result := r\<rparr>) = static p"
  "static (p\<lparr>pattern := pt\<rparr>) = static p"
  by (simp_all add: static_def)

lemma static_analyzeExtPattern [simp]: "static (analyzeExtPattern p) = static p"
  by (simp add: analyzeExtPattern_def Let_def split: prod.splits)

lemma static_analyzeExt_spans [simp]: "static (analyzeExt_spans from to p) = static p"
  by (simp add: analyzeExt_spans_def Let_def)

lemma static_analyzeExt [simp]: "static (analyzeExt from p) = static p"
  by (simp add: analyzeExt_def Let_def split: option.splits prod.splits)

lemma static_analyzeNet_exception [simp]: "static (fst (analyzeNet_exception p)) = static p"
  by (simp add: analyzeNet_exception_def Let_def)

lemma static_analyzeNet_dollar [simp]: "static (fst (analyzeNet_dollar p i l)) = static p"
  by (simp add: analyzeNet_dollar_def Let_def)

lemma static_analyzeNet_options_found [simp]: "static (analyzeNet_options_found p i ob) = static p"
  by (simp add: analyzeNet_options_found_def Let_def case_prod_beta)

lemma static_analyzeNet_options [simp]: "static (fst (analyzeNet_options p islice)) = static p"
  by (simp add: analyzeNet_options_def Let_def case_prod_beta)

lemma static_analyzeNet_leftAnchor [simp]: "static (analyzeNet_leftAnchor p) = static p"
  by (simp add: analyzeNet_leftAnchor_def Let_def)

lemma static_analyzeNet_rightAnchor [simp]: "static (analyzeNet_rightAnchor p) = static p"
  by (simp add: analyzeNet_rightAnchor_def analyzeNet_rightPipe_def analyzeNet_rightCaret_def Let_def)

lemma static_analyzeNet_anchors [simp]: "static (analyzeNet_anchors r p) = static p"
  by (simp add: analyzeNet_anchors_def Let_def)

lemma static_analyzeNet_dropToSpace [simp]: "static (analyzeNet_dropToSpace p j) = static p"
  by (simp add: analyzeNet_dropToSpace_def Let_def case_prod_beta)

lemma static_analyzeNet_spaces: "analyzeNet_spaces p = Some q \<Longrightarrow> static q = static p"
  by (auto simp: analyzeNet_spaces_def Let_def split: option.splits if_splits)

lemma static_analyzeNet_wildcard_steps [simp]:
  "static (fst (analyzeNet_leadingWildcard p i l)) = static p"
  "static (fst (analyzeNet_trailingWildcard p i l)) = static p"
  "static (analyzeNet_pointlessLeft p i l) = static p"
  "static (analyzeNet_pointlessRight p i l) = static p"
  by (simp_all add: analyzeNet_leadingWildcard_def analyzeNet_trailingWildcard_def
      analyzeNet_pointlessLeft_def analyzeNet_pointlessRight_def Let_def)

lemma static_analyzeNet_wildcards [simp]: "static (analyzeNet_wildcards p) = static p"
  by (simp add: analyzeNet_wildcards_def Let_def case_prod_beta)

lemma static_analyzeNet: "analyzeNet p = Some q \<Longrightarrow> static q = static p"
  by (auto simp: analyzeNet_def Let_def case_prod_beta split: option.splits if_splits
           dest!: static_analyzeNet_spaces)

subsection \<open>Blank lines (C10)\<close>

lemma static_analyze_comment_loop [simp]: "static (analyze_comment_loop p h) = static p"
proof (induction p h rule: analyze_comment_loop.induct)
  case (1 p hashSlot)
  show ?case
  proof (cases "hasBits (cell p (hashSlot - 3)) BITSpace")
    case True
    then show ?thesis
      by (simp add: analyze_comment_loop.simps [of p hashSlot])
  next
    case False
    note ns = this
    show ?thesis
    proof (cases "findFirstMatch p (hashSlot + 6) BITHash = - 1")
      case True
      with ns show ?thesis
        by (simp add: analyze_comment_loop.simps [of p hashSlot])
    next
      case False
      with ns "1.IH" [OF ns refl False] show ?thesis
        by (simp add: analyze_comment_loop.simps [of p hashSlot] Let_def)
    qed
  qed
qed

lemma static_analyze: "analyze line p = Some q \<Longrightarrow> static q = static (slice line p)"
  by (auto simp: analyze_def Let_def split: if_splits dest!: static_analyzeNet)

text \<open>The union of the class bits of the code units of a line.\<close>

definition orBits :: "jsstring \<Rightarrow> int" where
  "orBits line = foldr (\<lambda>c a. charBits c OR a) line 0"

lemma slice_loop_allBits:
  "slice_loop line sls ptr allB aBits i j = (sls', ptr', allB', i', j') \<Longrightarrow> allB OR aBits = allB
   \<Longrightarrow> 0 \<le> j \<Longrightarrow> allB' = allB OR orBits (drop (nat j) line)"
proof (induction line sls ptr allB aBits i j rule: slice_loop.induct)
  case (1 line sls ptr allB aBits i j)
  show ?case
  proof (cases "j < int (length line)")
    case False
    with "1.prems" show ?thesis
      by (simp add: slice_loop.simps [of line sls ptr allB aBits i j] orBits_def)
  next
    case True
    note lt = this
    with "1.prems"(3) have d: "drop (nat j) line = line ! nat j # drop (nat (j + 1)) line"
      by (simp add: Cons_nth_drop_Suc nat_add_distrib)
    have o: "orBits (drop (nat j) line) = charBits (line ! nat j) OR orBits (drop (nat (j + 1)) line)"
      unfolding d by (simp add: orBits_def)
    show ?thesis
    proof (cases "charBits (line ! nat j) \<noteq> aBits")
      case True
      with lt "1.prems" have "slice_loop line
             (aset (aset (aset sls ptr (j - i)) (ptr + 1) (charBits (line ! nat j))) (ptr + 2) j)
             (ptr + 3) (allB OR charBits (line ! nat j)) (charBits (line ! nat j)) j (j + 1)
           = (sls', ptr', allB', i', j')"
        by (simp add: slice_loop.simps [of line sls ptr allB aBits i j] Let_def)
      from "1.IH"(1) [OF lt refl True this] "1.prems"(3)
      have "allB' = allB OR charBits (line ! nat j) OR orBits (drop (nat (j + 1)) line)"
        by (simp add: or.assoc)
      then show ?thesis
        by (simp add: o or.assoc)
    next
      case False
      with lt "1.prems" have "slice_loop line sls ptr allB aBits i (j + 1) = (sls', ptr', allB', i', j')"
        by (simp add: slice_loop.simps [of line sls ptr allB aBits i j] Let_def)
      from "1.IH"(2) [OF lt refl False this "1.prems"(2)] "1.prems"(3)
      have "allB' = allB OR orBits (drop (nat (j + 1)) line)"
        by simp
      moreover from False "1.prems"(2) have "allB OR charBits (line ! nat j) = allB"
        by simp
      ultimately show ?thesis
        by (metis o or.assoc)
    qed
  qed
qed

lemma slice_allBits: "allBits (slice line p) = orBits line"
proof (cases "line = []")
  case True
  show ?thesis
    unfolding True slice_empty by (simp add: reset_def orBits_def)
next
  case False
  obtain sls1 ptr1 allB1 i1 where
    L: "slice_loop line (aset (aset (slices p) 0 (charBits (line ! 0))) 1 0) 2
       (charBits (line ! 0)) (charBits (line ! 0)) 0 1 = (sls1, ptr1, allB1, i1, int (length line))"
    and sl: "sliced sls1 ptr1 i1"
    using slice_loop_result [OF False] by blast
  from slice_loop_allBits [OF L] have "allB1 = charBits (line ! 0) OR orBits (drop 1 line)"
    by simp
  moreover from False have "line = line ! 0 # drop 1 line"
    by (cases line) simp_all
  then obtain c cs where l: "line = c # cs"
    by blast
  have "orBits line = charBits (line ! 0) OR orBits (drop 1 line)"
    unfolding l by (simp add: orBits_def)
  ultimately show ?thesis
    using slice_unfold(3) [OF False L] by simp
qed

lemma orBits_eq_Space:
  "orBits line = 1 \<longleftrightarrow> (\<forall>c \<in> set line. charBits c = 0 \<or> charBits c = 1) \<and> (\<exists>c \<in> set line. charBits c = 1)"
proof (induction line)
  case Nil
  show ?case by (simp add: orBits_def)
next
  case (Cons c cs)
  have o: "orBits (c # cs) = charBits c OR orBits cs"
    by (simp add: orBits_def)
  have z: "orBits cs = 0 \<longleftrightarrow> (\<forall>c \<in> set cs. charBits c = 0)"
    by (induction cs) (simp_all add: orBits_def or_eq_0_iff)
  show ?case
    unfolding o or_eq_1_iff Cons.IH z by auto
qed

text \<open>The code units below 0x80 that the table gives no class bit.\<close>

definition isClassless :: "nat \<Rightarrow> bool" where
  "isClassless c = (c \<le> 0x08 \<or> c = 0x0B \<or> c = 0x0C \<or> 0x0E \<le> c \<and> c \<le> 0x1F \<or> c = 0x7F)"

lemma BITSpace_1: "BITSpace = 1"
  by (simp add: BITSpace_def shl_def)

text \<open>The table, entry by entry from the code unit \<open>n\<close> on.\<close>

fun table_agrees :: "nat \<Rightarrow> int list \<Rightarrow> bool" where
  "table_agrees n [] = True"
| "table_agrees n (b # bs) =
     ((b = 1) = isWhitespace n \<and> (b = 0) = isClassless n \<and> table_agrees (n + 1) bs)"

lemma table_agrees_nth:
  "table_agrees n bs \<Longrightarrow> i < length bs
   \<Longrightarrow> (bs ! i = 1) = isWhitespace (n + i) \<and> (bs ! i = 0) = isClassless (n + i)"
proof (induction bs arbitrary: n i)
  case Nil
  then show ?case by simp
next
  case (Cons b bs)
  show ?case
  proof (cases i)
    case 0
    with Cons.prems show ?thesis by simp
  next
    case (Suc k)
    with Cons.prems Cons.IH [of "n + 1" k] show ?thesis by simp
  qed
qed

lemmas class_bit_defs =
  shl_def BITSpace_def BITGlyph_def BITExclamation_def BITHash_def BITDollar_def
  BITPercent_def BITParen_def BITAsterisk_def BITPlus_def BITComma_def BITDash_def BITPeriod_def
  BITSlash_def BITNum_def BITEqual_def BITQuestion_def BITAt_def BITAlpha_def BITUppercase_def
  BITSquareBracket_def BITBackslash_def BITCaret_def BITUnderscore_def BITBrace_def BITPipe_def
  BITTilde_def BITOpening_def BITClosing_def BITUnicode_def BITIgnore_def BITError_def

lemma charDescBits_agrees: "table_agrees 0 charDescBits"
  by (simp add: charDescBits_def class_bit_defs isWhitespace_def isClassless_def)

lemma length_charDescBits: "length charDescBits = 128"
  by (simp add: charDescBits_def)

lemma charBits_space: "(charBits c = BITSpace) = isWhitespace c" "(charBits c = 0) = isClassless c"
proof -
  have "(charBits c = BITSpace) = isWhitespace c \<and> (charBits c = 0) = isClassless c"
  proof (cases "c < 128")
    case True
    with table_agrees_nth [OF charDescBits_agrees, of c] show ?thesis
      by (simp add: length_charDescBits charBits_def BITSpace_1)
  next
    case False
    then have "charBits c = BITUnicode OR BITAlpha"
      by (simp add: charBits_def)
    then have "charBits c = 537001984"
      by (simp add: BITUnicode_def BITAlpha_def shl_def)
    with False show ?thesis
      by (simp add: BITSpace_1 isWhitespace_def isClassless_def)
  qed
  then show "(charBits c = BITSpace) = isWhitespace c" "(charBits c = 0) = isClassless c"
    by simp_all
qed

lemma analyze_empty: "analyze [] p = Some (slice [] p)"
  by (simp add: analyze_def slice_empty reset_def spI_def spL_def)

subsection \<open>An invariant of the analysis\<close>

text \<open>
  Every offset and length of a span is a multiple of 3, and the slices are well formed.
  The analysis writes the bits of a slice only, at an offset that is a multiple of 3, or
  splits a slice that comes before the end-of-line slice.
\<close>

definition al :: "Parser \<Rightarrow> bool" where
  "al p \<longleftrightarrow> (\<forall>s. spI p s mod 3 = 0 \<and> spL p s mod 3 = 0)"

definition ok :: "Parser \<Rightarrow> bool" where
  "ok p \<longleftrightarrow> wfs p \<and> al p"

lemma alD: "al p \<Longrightarrow> spI p s mod 3 = 0" "al p \<Longrightarrow> spL p s mod 3 = 0"
  by (simp_all add: al_def)

lemma okD: "ok p \<Longrightarrow> spI p s mod 3 = 0" "ok p \<Longrightarrow> spL p s mod 3 = 0"
  "ok p \<Longrightarrow> 6 \<le> sliceWritePtr p" "ok p \<Longrightarrow> sliceWritePtr p mod 3 = 0" "ok p \<Longrightarrow> wfs p"
  by (simp_all add: ok_def al_def wfs_def)

lemma wfs_marked:
  assumes w: "wfs p" and e: "sliceWritePtr q = sliceWritePtr p" "spI q eolSpan = spI p eolSpan"
    "raw q = raw p" and len: "length (slices p) \<le> length (slices q)"
    and c: "\<And>m. m mod 3 \<noteq> 0 \<Longrightarrow> cell q m = cell p m"
  shows "wfs q"
proof -
  let ?w = "sliceWritePtr p"
  from w have w3: "?w mod 3 = 0" and w6: "6 \<le> ?w" and wl: "?w \<le> int (length (slices p))"
    and eol: "spI p eolSpan = ?w - 3" and c1: "cell p 1 = 0"
    and c2: "cell p (?w - 2) = int (length (raw p))" and c3: "cell p (?w - 1) = 0"
    by (simp_all add: wfs_def)
  have n1: "(?w - 2) mod 3 \<noteq> 0" and n2: "(?w - 1) mod 3 \<noteq> 0"
    using w3 by presburger+
  have "cell q (k + 1) + cell q (k + 2) = cell q (k + 4)"
    if k: "0 \<le> k" "k mod 3 = 0" "k + 3 < ?w" for k
  proof -
    from k(2) have "(k + 1) mod 3 \<noteq> 0" "(k + 2) mod 3 \<noteq> 0" "(k + 4) mod 3 \<noteq> 0"
      by presburger+
    then have "cell q (k + 1) = cell p (k + 1)" "cell q (k + 2) = cell p (k + 2)"
      "cell q (k + 4) = cell p (k + 4)"
      by (simp_all add: c)
    with contigD [OF wfs_contig [OF w] k] show ?thesis
      by simp
  qed
  moreover have "cell q 1 = 0" "cell q (?w - 2) = int (length (raw p))" "cell q (?w - 1) = 0"
    using c [of 1] c [OF n1] c [OF n2] c1 c2 c3 by simp_all
  ultimately show ?thesis
    using w3 w6 wl eol e len by (simp add: wfs_def)
qed

lemma ok_setI: "ok p \<Longrightarrow> v mod 3 = 0 \<Longrightarrow> s \<noteq> eolSpan \<Longrightarrow> ok (setI s v p)"
  by (simp add: ok_def al_def wfs_def)

lemma ok_setL: "ok p \<Longrightarrow> v mod 3 = 0 \<Longrightarrow> ok (setL s v p)"
  by (simp add: ok_def al_def wfs_def)

lemma ok_orSlice:
  assumes "ok p" and "k mod 3 = 0"
  shows "ok (orSlice k b p)"
proof -
  from assms(1) have "wfs p" "al p"
    by (simp_all add: ok_def)
  from this(1) have "wfs (orSlice k b p)"
    by (rule wfs_marked) (use assms(2) in \<open>auto simp: orSlice_length orSlice_cell\<close>)
  with \<open>al p\<close> show ?thesis
    by (simp add: ok_def al_def)
qed

lemma ok_markSlices:
  assumes "ok p" and "beg mod 3 = 0"
  shows "ok (markSlices beg e bits p)"
proof -
  from assms(1) have "wfs p" "al p"
    by (simp_all add: ok_def)
  have m: "(m - beg) mod 3 \<noteq> 0" if "m mod 3 \<noteq> 0" for m
    using that assms(2) by presburger
  from \<open>wfs p\<close> have "wfs (markSlices beg e bits p)"
    by (rule wfs_marked) (auto simp: markSlices_length markSlices_cell m)
  with \<open>al p\<close> show ?thesis
    by (simp add: ok_def al_def)
qed

lemma ok_splitSlot:
  assumes o: "ok p" and s: "0 \<le> slot" "slot mod 3 = 0" "slot + 6 \<le> sliceWritePtr p"
  shows "ok (splitSlot slot l p)"
proof -
  let ?w = "sliceWritePtr p"
  let ?q = "splitSlot slot l p"
  from o have w: "wfs p" and a: "al p"
    by (simp_all add: ok_def)
  from w have w3: "?w mod 3 = 0" and w6: "6 \<le> ?w" and wl: "?w \<le> int (length (slices p))"
    and eol: "spI p eolSpan = ?w - 3" and c1: "cell p 1 = 0"
    and c2: "cell p (?w - 2) = int (length (raw p))" and c3: "cell p (?w - 1) = 0"
    by (simp_all add: wfs_def)
  from s have s': "slot \<le> ?w" "slot + 3 \<le> ?w"
    by simp_all
  note cellq = splitSlot_cell [OF s(1) s'(1) wl, of l]
  have "contig ?q"
    using wfs_contig [OF w] s(1,2) s'(2) w3 wl by (rule splitSlot_contig)
  then have k: "\<forall>k. 0 \<le> k \<and> k mod 3 = 0 \<and> k + 3 < sliceWritePtr ?q
            \<longrightarrow> cell ?q (k + 1) + cell ?q (k + 2) = cell ?q (k + 4)"
    by (simp add: contig_def)
  have ne: "1 \<noteq> slot + 2" "1 \<noteq> slot + 4" "1 \<noteq> slot + 5" "\<not> slot + 3 \<le> 1"
    using s(1) by simp_all
  have q1: "cell ?q 1 = 0"
    unfolding cellq(1) using ne c1 by simp
  have q2: "cell ?q (?w + 1) = int (length (raw p))"
    unfolding cellq(1) using s c2 by simp
  have q3: "cell ?q (?w + 2) = 0"
    unfolding cellq(1) using s c3 by simp
  have "spI ?q eolSpan = ?w"
    using eol s by simp
  with k q1 q2 q3 w3 w6 cellq(2) have "wfs ?q"
    by (simp add: wfs_def add.commute)
  moreover have "al ?q"
    using a by (simp add: al_def)
  ultimately show ?thesis
    by (simp add: ok_def)
qed

lemma ok_updates [simp]:
  "ok (orFlavor b p) = ok p"
  "ok (clearFlavor b p) = ok p"
  "ok (BITFlavorUnsupportedOr p) = ok p"
  "ok (p\<lparr>flavorBits := fb\<rparr>) = ok p"
  "ok (p\<lparr>category := c\<rparr>) = ok p"
  "ok (p\<lparr>patternBits := pb\<rparr>) = ok p"
  "ok (p\<lparr>optionsBits := ob\<rparr>) = ok p"
  "ok (p\<lparr>result := r\<rparr>) = ok p"
  "ok (p\<lparr>pattern := pat\<rparr>) = ok p"
  "ok (snd (getNetPattern p)) = ok p"
  by (simp_all add: ok_def al_def wfs_def spI_def spL_def cell_def orFlavor_def clearFlavor_def
        BITFlavorUnsupportedOr_def getNetPattern_def Let_def split: prod.splits)

lemma slice_ok:
  assumes ne: "line \<noteq> []"
  shows "ok (slice line p)"
    and "cell (slice line p) (sliceWritePtr (slice line p) - 3) = 0"
    and "spI (slice line p) leftSpaceSpan = 0"
    and "spL (slice line p) leftSpaceSpan = 0 \<or> spL (slice line p) leftSpaceSpan = 3"
    and "spI (slice line p) rightSpaceSpan = sliceWritePtr (slice line p) - 3
         \<or> spI (slice line p) rightSpaceSpan = sliceWritePtr (slice line p) - 6
            \<and> 9 \<le> sliceWritePtr (slice line p)"
    and "category (slice line p) = CATNone"
proof -
  let ?q = "slice line p"
  obtain sls1 ptr1 allB1 i1 where
    L: "slice_loop line (aset (aset (slices p) 0 (charBits (line ! 0))) 1 0) 2
       (charBits (line ! 0)) (charBits (line ! 0)) 0 1 = (sls1, ptr1, allB1, i1, int (length line))"
    and sl: "sliced sls1 ptr1 i1"
    using slice_loop_result [OF ne] by blast
  note u = slice_unfold [OF ne L]
  have w: "wfs ?q"
    using ne by (rule slice_wfs)
  then have w3: "sliceWritePtr ?q mod 3 = 0" and eol: "spI ?q eolSpan = sliceWritePtr ?q - 3"
    by (simp_all add: wfs_def)
  from u(2) have ptr: "ptr1 = sliceWritePtr ?q - 4"
    by simp
  have "spI ?q s mod 3 = 0 \<and> spL ?q s mod 3 = 0" for s
  proof (cases "s \<in> {eolSpan, leftSpaceSpan, rightSpaceSpan}")
    case False
    then show ?thesis
      using u(16) [of s] by simp
  next
    case True
    have "(ptr1 + 1) mod 3 = 0" "(ptr1 - 2) mod 3 = 0"
      using w3 unfolding ptr by presburger+
    with True show ?thesis
      using u(10-15) by auto
  qed
  with w show "ok ?q"
    by (simp add: ok_def al_def)
  from slice_eol_sentinel [OF ne, of p] eol show "cell ?q (sliceWritePtr ?q - 3) = 0"
    by (simp add: eol_sentinel_def Let_def)
  show "spI ?q leftSpaceSpan = 0"
    by (rule u(12))
  show "spL ?q leftSpaceSpan = 0 \<or> spL ?q leftSpaceSpan = 3"
    using u(13) by simp
  show "spI ?q rightSpaceSpan = sliceWritePtr ?q - 3
         \<or> spI ?q rightSpaceSpan = sliceWritePtr ?q - 6 \<and> 9 \<le> sliceWritePtr ?q"
    using u(14) w3 unfolding ptr by (auto split: if_splits)
  show "category ?q = CATNone"
    by (rule u(5))
qed

text \<open>The searches return an offset of the same class modulo 3, below the write pointer.\<close>

lemma findFirstMatch_found:
  assumes "findFirstMatch p from bits = r" and "r \<noteq> - 1"
  shows "from \<le> r" and "r < sliceWritePtr p" and "(r - from) mod 3 = 0"
    and "cell p r AND bits \<noteq> 0"
proof -
  have "findFirstMatch_loop p to bits = r \<Longrightarrow> r \<noteq> - 1
      \<Longrightarrow> to \<le> r \<and> r < sliceWritePtr p \<and> (r - to) mod 3 = 0 \<and> cell p r AND bits \<noteq> 0" for to
  proof (induction p to bits rule: findFirstMatch_loop.induct)
    case (1 p to bits)
    show ?case
    proof (cases "to < sliceWritePtr p")
      case False
      with "1.prems" show ?thesis
        by (simp add: findFirstMatch_loop.simps [of p to bits])
    next
      case lt: True
      show ?thesis
      proof (cases "cell p to AND bits \<noteq> 0")
        case True
        with lt "1.prems" show ?thesis
          by (simp add: findFirstMatch_loop.simps [of p to bits])
      next
        case False
        with lt "1.prems" have "findFirstMatch_loop p (to + 3) bits = r"
          by (simp add: findFirstMatch_loop.simps [of p to bits])
        from "1.IH" [OF lt False this "1.prems"(2)]
        have "to + 3 \<le> r" "r < sliceWritePtr p" "(r - (to + 3)) mod 3 = 0" "cell p r AND bits \<noteq> 0"
          by simp_all
        moreover from this(3) have "(r - to) mod 3 = 0"
          by presburger
        ultimately show ?thesis
          by simp
      qed
    qed
  qed
  from this [of "from"] assms
  show "from \<le> r" and "r < sliceWritePtr p" and "(r - from) mod 3 = 0"
    and "cell p r AND bits \<noteq> 0"
    by (simp_all add: findFirstMatch_def)
qed

subsection \<open>The invariant through \<open>analyzeExt\<close>\<close>

lemma analyzeExtPattern_ok [simp]:
  "ok (analyzeExtPattern p) = ok p"
  "category (analyzeExtPattern p) = category p"
  by (simp_all add: analyzeExtPattern_def Let_def ok_def al_def wfs_def spI_def spL_def cell_def
        BITFlavorUnsupportedOr_def split: prod.splits)

lemma analyzeExt_spans_ok:
  assumes "ok p" and "from mod 3 = 0" and "to mod 3 = 0"
  shows "ok (analyzeExt_spans from to p)"
proof -
  note a = okD(1,2) [OF assms(1)]
  have m: "(x + y) mod 3 = 0" "(x - y) mod 3 = 0" if "x mod 3 = 0" "y mod 3 = 0" for x y :: int
    using that by presburger+
  show ?thesis
    unfolding analyzeExt_spans_def Let_def
    by (intro ok_setI ok_setL assms(1)) (simp_all add: m a assms(2,3))
qed

lemma analyzeExt_spans_category [simp]:
  "category (analyzeExt_spans from to p) = category p"
  by (simp add: analyzeExt_spans_def Let_def)

text \<open>
  The offset \<open>to\<close> moves by whole slices and stays at or before the end-of-line slice,
  which has no bit.
\<close>

definition upto_eol :: "Parser \<Rightarrow> int \<Rightarrow> bool" where
  "upto_eol p to \<longleftrightarrow> 0 \<le> to \<and> to mod 3 = 0 \<and> to + 3 \<le> sliceWritePtr p"

lemma upto_eol_next:
  assumes "upto_eol p to" and "ok p" and "cell p (sliceWritePtr p - 3) = 0" and "hasBits (cell p to) b"
  shows "upto_eol p (to + 3)" and "to + 6 \<le> sliceWritePtr p"
proof -
  from assms(3,4) have "to \<noteq> sliceWritePtr p - 3"
    by (auto simp: hasBits_def)
  moreover from assms(1,2) have "to mod 3 = 0" "sliceWritePtr p mod 3 = 0" "to + 3 \<le> sliceWritePtr p"
    "0 \<le> to"
    by (simp_all add: upto_eol_def okD)
  ultimately show "to + 6 \<le> sliceWritePtr p"
    by presburger
  with \<open>to mod 3 = 0\<close> \<open>0 \<le> to\<close> show "upto_eol p (to + 3)"
    by (simp add: upto_eol_def)
qed

lemma analyzeExt_at_upto:
  assumes "analyzeExt_at p e (fb, to) = Some (fb', to')" and "upto_eol p to" and "ok p"
    and "cell p (sliceWritePtr p - 3) = 0"
  shows "upto_eol p to'"
  using assms upto_eol_next(1) [of p to BITAt]
  by (auto simp: analyzeExt_at_def Let_def split: if_splits)

lemma analyzeExt_style_upto:
  assumes "analyzeExt_style p e (fb, to) = Some (fb', to')" and "upto_eol p to" and "ok p"
    and "cell p (sliceWritePtr p - 3) = 0"
  shows "upto_eol p to'"
proof -
  note n = upto_eol_next(1) [OF _ assms(3,4)]
  show ?thesis
  proof (cases "hasBits (cell p to) BITDollar")
    case True
    from n [OF assms(2) True] have 1: "upto_eol p (to + 3)" .
    show ?thesis
    proof (cases "hasBits (cell p (to + 3)) BITQuestion")
      case q: True
      from n [OF 1 q] have "upto_eol p (to + 3 + 3)" .
      with assms(1) True q 1 show ?thesis
        by (auto simp: analyzeExt_style_def Let_def split: if_splits)
    next
      case False
      with assms(1) True 1 show ?thesis
        by (auto simp: analyzeExt_style_def Let_def split: if_splits)
    qed
  next
    case False
    show ?thesis
    proof (cases "hasBits (cell p to) (BITPercent OR BITQuestion)")
      case True
      from n [OF assms(2) True] have "upto_eol p (to + 3)" .
      with assms(1) False True show ?thesis
        by (auto simp: analyzeExt_style_def Let_def split: if_splits)
    next
      case f: False
      with assms(1,2) False show ?thesis
        by (auto simp: analyzeExt_style_def Let_def split: if_splits)
    qed
  qed
qed

lemma analyzeExt_ok:
  assumes o: "ok p" and f: "0 \<le> from" "from mod 3 = 0" "from + 6 \<le> sliceWritePtr p"
    and e: "cell p (sliceWritePtr p - 3) = 0" and c: "category p \<noteq> CATStaticExtFilter"
  shows "ok (analyzeExt from p)"
    and "category (analyzeExt from p) \<noteq> CATStaticExtFilter \<Longrightarrow> analyzeExt from p = p"
proof -
  define l where "l = cell p (from + 2)"
  have f3: "(from + 3) mod 3 = 0"
    using f(2) by presburger
  have u0: "upto_eol p (from + 3)"
    using f f3 by (simp add: upto_eol_def)
  have "ok (analyzeExt from p)
      \<and> (category (analyzeExt from p) \<noteq> CATStaticExtFilter \<longrightarrow> analyzeExt from p = p)"
  proof (cases "l = 1")
    case False
    have "ok (splitSlot from 2 p)"
      using o f by (rule ok_splitSlot)
    then have "ok (analyzeExt_spans from (from + 3) (splitSlot from 2 p))"
      "ok (analyzeExt_spans from (from + 3) p)"
      using o f(2) f3 by (simp_all add: analyzeExt_spans_ok)
    with False o show ?thesis
      by (simp add: analyzeExt_def Let_def l_def [symmetric])
  next
    case True
    show ?thesis
    proof (cases "Option.bind (analyzeExt_at p (spI p rightSpaceSpan) (0, from + 3))
                    (analyzeExt_style p (spI p rightSpaceSpan))")
      case None
      with True o show ?thesis
        by (simp add: analyzeExt_def Let_def l_def [symmetric])
    next
      case (Some r)
      obtain fb to where r: "r = (fb, to)"
        by (cases r)
      from Some r obtain fb1 to1 where
        1: "analyzeExt_at p (spI p rightSpaceSpan) (0, from + 3) = Some (fb1, to1)"
        and 2: "analyzeExt_style p (spI p rightSpaceSpan) (fb1, to1) = Some (fb, to)"
        by (cases "analyzeExt_at p (spI p rightSpaceSpan) (0, from + 3)") auto
      from analyzeExt_at_upto [OF 1 u0 o e] have "upto_eol p to1" .
      from analyzeExt_style_upto [OF 2 this o e] have u: "upto_eol p to" .
      show ?thesis
      proof (cases "hasNoBits (cell p to) BITHash")
        case h: True
        with True Some r o show ?thesis
          by (simp add: analyzeExt_def Let_def l_def [symmetric])
      next
        case h: False
        then have "hasBits (cell p to) BITHash"
          by (simp add: hasBits_def hasNoBits_def)
        from upto_eol_next [OF u o e this] have t: "upto_eol p (to + 3)" "to + 6 \<le> sliceWritePtr p" .
        from u have t0: "0 \<le> to" "to mod 3 = 0"
          by (simp_all add: upto_eol_def)
        from t(1) have t3: "(to + 3) mod 3 = 0"
          by (simp add: upto_eol_def)
        have "ok (splitSlot to 1 p)"
          using o t0 t(2) by (rule ok_splitSlot)
        then have "ok (analyzeExt_spans from (to + 3) (splitSlot to 1 p))"
          "ok (analyzeExt_spans from (to + 3) p)"
          using o f(2) t3 by (simp_all add: analyzeExt_spans_ok)
        with True Some r h o show ?thesis
          by (simp add: analyzeExt_def Let_def l_def [symmetric])
      qed
    qed
  qed
  then show "ok (analyzeExt from p)"
    and "category (analyzeExt from p) \<noteq> CATStaticExtFilter \<Longrightarrow> analyzeExt from p = p"
    by simp_all
qed

subsection \<open>The invariant through \<open>analyzeNet\<close>\<close>

lemma mod3_arith:
  "x mod 3 = 0 \<Longrightarrow> y mod 3 = 0 \<Longrightarrow> (x + y) mod 3 = 0"
  "x mod 3 = 0 \<Longrightarrow> y mod 3 = 0 \<Longrightarrow> (x - y) mod 3 = 0"
  "x mod 3 = 0 \<Longrightarrow> (x + 3) mod 3 = 0"
  "x mod 3 = 0 \<Longrightarrow> (x - 3) mod 3 = 0"
  for x y :: int
  by presburger+

lemma mod3_gap: "x mod 3 = 0 \<Longrightarrow> y mod 3 = 0 \<Longrightarrow> x < y \<Longrightarrow> x + 3 \<le> y" for x y :: int
  by presburger

lemma cell_negative: "k < 0 \<Longrightarrow> cell p k = 0"
  by (simp add: cell_def aget_def)

text \<open>Where \<open>analyzeNet\<close> starts: the comment span begins at a slice, the last one at most.\<close>

definition netStart :: "Parser \<Rightarrow> bool" where
  "netStart p \<longleftrightarrow>
     ok p \<and> spI p leftSpaceSpan = 0 \<and> 0 \<le> spI p commentSpan
     \<and> spI p commentSpan + 3 \<le> sliceWritePtr p"

lemma analyze_comment_loop_netStart:
  "netStart p \<Longrightarrow> hashSlot mod 3 = 0 \<Longrightarrow> hashSlot < sliceWritePtr p
     \<Longrightarrow> netStart (analyze_comment_loop p hashSlot)"
proof (induction p hashSlot rule: analyze_comment_loop.induct)
  case (1 p hashSlot)
  from "1.prems"(1) have o: "ok p"
    by (simp add: netStart_def)
  show ?case
  proof (cases "hasBits (cell p (hashSlot - 3)) BITSpace")
    case True
    then have "\<not> hashSlot - 3 < 0"
      using cell_negative [of "hashSlot - 3" p] by (auto simp: hasBits_def)
    then have h: "0 \<le> hashSlot - 3"
      by simp
    have "ok (setL commentSpan (spI p rightSpaceSpan - hashSlot) (setI commentSpan (hashSlot - 3) p))"
      using o "1.prems"(2) by (intro ok_setI ok_setL) (simp_all add: mod3_arith okD)
    with True h "1.prems" show ?thesis
      by (simp add: analyze_comment_loop.simps [of p hashSlot] netStart_def)
  next
    case False
    define h where "h = findFirstMatch p (hashSlot + 6) BITHash"
    show ?thesis
    proof (cases "h = - 1")
      case True
      with False "1.prems"(1) show ?thesis
        by (simp add: analyze_comment_loop.simps [of p hashSlot] h_def [symmetric])
    next
      case ne: False
      from findFirstMatch_found [OF h_def [symmetric] ne]
      have "h < sliceWritePtr p" "(h - (hashSlot + 6)) mod 3 = 0"
        by simp_all
      moreover from this(2) "1.prems"(2) have "h mod 3 = 0"
        by presburger
      ultimately have "netStart (analyze_comment_loop p h)"
        using "1.IH" [OF False h_def ne "1.prems"(1)] by simp
      with False ne show ?thesis
        by (simp add: analyze_comment_loop.simps [of p hashSlot] h_def [symmetric])
    qed
  qed
qed

text \<open>After the exception declarator: \<open>islice\<close> is where the pattern starts.\<close>

definition patStart :: "Parser \<Rightarrow> int \<Rightarrow> bool" where
  "patStart p islice \<longleftrightarrow>
     ok p \<and> 0 \<le> islice \<and> islice mod 3 = 0 \<and> islice \<le> spI p commentSpan
     \<and> spI p commentSpan + 3 \<le> sliceWritePtr p"

lemma analyzeNet_exception_patStart:
  assumes "netStart p"
  shows "patStart (fst (analyzeNet_exception p)) (snd (analyzeNet_exception p))"
proof -
  from assms have o: "ok p" and l: "spI p leftSpaceSpan = 0" and c: "0 \<le> spI p commentSpan"
    "spI p commentSpan + 3 \<le> sliceWritePtr p"
    by (simp_all add: netStart_def)
  define p1 where "p1 = setI exceptionSpan (spL p leftSpaceSpan) p"
  have o1: "ok p1"
    unfolding p1_def using o by (intro ok_setI) (simp_all add: okD)
  have s1: "spI p1 commentSpan = spI p commentSpan" "sliceWritePtr p1 = sliceWritePtr p"
    "spI p1 leftSpaceSpan = 0"
    by (simp_all add: p1_def l)
  have base: "patStart p1 0"
    using o1 c by (simp add: patStart_def s1)
  show ?thesis
  proof (cases "0 < spI p1 commentSpan \<and> hasBits (cell p1 0) BITAt \<and> cell p1 2 \<ge> 2")
    case False
    with base show ?thesis
      by (auto simp: analyzeNet_exception_def Let_def l p1_def [symmetric])
  next
    case True
    from True have "0 < spI p1 commentSpan"
      by simp
    with okD(1) [OF o1, of commentSpan] have c3: "3 \<le> spI p1 commentSpan"
      by presburger
    have w6: "0 + 6 \<le> sliceWritePtr p1"
      using okD(3) [OF o1] by simp
    define p2 where "p2 = (if cell p1 2 > 2 then splitSlot 0 2 p1 else p1)"
    have o2: "ok p2"
      unfolding p2_def using o1 ok_splitSlot [OF o1 _ _ w6, of 2] by simp
    have s2: "3 \<le> spI p2 commentSpan" "spI p2 commentSpan + 3 \<le> sliceWritePtr p2"
      using c3 c(2) True by (auto simp: p2_def s1)
    have "ok (setL exceptionSpan 3 p2)"
      using o2 by (intro ok_setL) simp_all
    with s2 have "patStart (orFlavor BITFlavorException (setL exceptionSpan 3 p2)) 3"
      by (simp add: patStart_def)
    with True show ?thesis
      by (simp add: analyzeNet_exception_def Let_def l p1_def [symmetric] p2_def [symmetric])
  qed
qed

lemma analyzeNet_options_loop_result:
  "analyzeNet_options_loop p islice i ob = (i', ob') \<Longrightarrow> i' < i \<and> (i - i') mod 3 = 0"
proof (induction p islice i ob rule: analyzeNet_options_loop.induct)
  case (1 p islice i ob)
  show ?case
  proof (cases "i - 3 < islice \<or> hasBits (cell p (i - 3)) BITDollar")
    case True
    with "1.prems" have "i' = i - 3"
      by (auto simp: analyzeNet_options_loop.simps [of p islice i ob] Let_def split: if_splits)
    then show ?thesis
      by simp
  next
    case False
    with "1.prems" have "analyzeNet_options_loop p islice (i - 3) (ob OR cell p (i - 3)) = (i', ob')"
      by (simp add: analyzeNet_options_loop.simps [of p islice i ob] Let_def)
    with "1.IH" [OF refl _ refl] False have "i' < i - 3 \<and> (i - 3 - i') mod 3 = 0"
      by simp
    then show ?thesis
      by presburger
  qed
qed

text \<open>
  The pattern span is a run of slices that ends where the options anchor, or the right
  anchor, begins.
\<close>

definition patEnds :: "Parser \<Rightarrow> span_id \<Rightarrow> bool" where
  "patEnds p s \<longleftrightarrow>
     ok p \<and> 0 \<le> spI p patternSpan \<and> 0 \<le> spL p patternSpan
     \<and> spI p s = spI p patternSpan + spL p patternSpan
     \<and> spI p s + 3 \<le> sliceWritePtr p"

lemma analyzeNet_dollar_result:
  assumes o: "ok p" and i: "0 \<le> i" "i mod 3 = 0" "i + 6 \<le> sliceWritePtr p"
    and r: "analyzeNet_dollar p i l = (p', i')"
  shows "ok p'" and "i \<le> i'" and "i' mod 3 = 0" and "i' + 6 \<le> sliceWritePtr p'"
    and "\<And>s. spI p s \<le> i \<Longrightarrow> spI p' s = spI p s"
proof -
  have m: "ok (markSlices i (i + 3) BITError (orFlavor BITFlavorError p))"
    using o i(2) by (intro ok_markSlices) simp_all
  have s: "ok (splitSlot i (l - 1) p)"
    using o i by (rule ok_splitSlot)
  have "ok p' \<and> i \<le> i' \<and> i' mod 3 = 0 \<and> i' + 6 \<le> sliceWritePtr p'
      \<and> (\<forall>s. spI p s \<le> i \<longrightarrow> spI p' s = spI p s)"
    using r o i m s mod3_arith(3) [OF i(2)]
    by (auto simp: analyzeNet_dollar_def Let_def split: if_splits)
  then show "ok p'" and "i \<le> i'" and "i' mod 3 = 0" and "i' + 6 \<le> sliceWritePtr p'"
    and "\<And>s. spI p s \<le> i \<Longrightarrow> spI p' s = spI p s"
    by simp_all
qed

lemma analyzeNet_options_found_patEnds:
  assumes o: "ok p" and i: "spI p patternSpan \<le> i" "i mod 3 = 0" "i + 6 \<le> sliceWritePtr p"
    and z: "0 \<le> spI p patternSpan"
  shows "patEnds (analyzeNet_options_found p i ob) optionsAnchorSpan"
proof -
  obtain p1 i1 where d: "analyzeNet_dollar p i (cell p (i + 2)) = (p1, i1)"
    by (cases "analyzeNet_dollar p i (cell p (i + 2))")
  from z i(1) have i0: "0 \<le> i"
    by simp
  note r = analyzeNet_dollar_result [OF o i0 i(2,3) d]
  have ps: "spI p1 patternSpan = spI p patternSpan"
    using r(5) i(1) by simp
  define q where "q = setL optionsSpan (spI p1 commentSpan - (i1 + 3))
     (setI optionsSpan (i1 + 3) (setL optionsAnchorSpan 3 (setI optionsAnchorSpan i1
       (setL patternSpan (i1 - spI p1 patternSpan) p1))))"
  have "ok q"
    unfolding q_def using r(1,3)
    by (intro ok_setI ok_setL) (simp_all add: mod3_arith okD)
  moreover have "spI q patternSpan = spI p patternSpan" "spL q patternSpan = i1 - spI p patternSpan"
    "spI q optionsAnchorSpan = i1" "sliceWritePtr q = sliceWritePtr p1"
    by (simp_all add: q_def ps)
  ultimately have "patEnds (q\<lparr>optionsBits := ob\<rparr>) optionsAnchorSpan"
    using z i(1) r(2,4) by (simp add: patEnds_def spI_def spL_def)
  moreover have "analyzeNet_options_found p i ob = q\<lparr>optionsBits := ob\<rparr>"
    by (simp add: analyzeNet_options_found_def Let_def d q_def)
  ultimately show ?thesis
    by simp
qed

lemma analyzeNet_options_patEnds:
  assumes "patStart p islice"
  shows "patEnds (fst (analyzeNet_options p islice)) optionsAnchorSpan"
proof -
  from assms have o: "ok p" and s: "0 \<le> islice" "islice mod 3 = 0" "islice \<le> spI p commentSpan"
    "spI p commentSpan + 3 \<le> sliceWritePtr p"
    by (simp_all add: patStart_def)
  define c where "c = spI p commentSpan"
  define p1 where "p1 = setL patternSpan (c - islice) (setI patternSpan islice
     (setI optionsAnchorSpan c (setI optionsSpan c p)))"
  have c3: "c mod 3 = 0"
    unfolding c_def using o by (rule okD)
  have o1: "ok p1"
    unfolding p1_def using o c3 s(2) by (intro ok_setI ok_setL) (simp_all add: mod3_arith)
  have f1: "spI p1 patternSpan = islice" "spL p1 patternSpan = c - islice"
    "spI p1 optionsAnchorSpan = c" "sliceWritePtr p1 = sliceWritePtr p"
    by (simp_all add: p1_def)
  have e1: "patEnds p1 optionsAnchorSpan"
    using o1 s by (simp add: patEnds_def f1 c_def [symmetric])
  obtain i ob where l: "analyzeNet_options_loop p1 islice c 0 = (i, ob)"
    by (cases "analyzeNet_options_loop p1 islice c 0")
  from analyzeNet_options_loop_result [OF l] have i: "i < c" "(c - i) mod 3 = 0"
    by simp_all
  from i(2) c3 have i3: "i mod 3 = 0"
    by presburger
  with c3 i(1) have "i + 3 \<le> c"
    by (intro mod3_gap)
  with s(4) have i6: "i + 6 \<le> sliceWritePtr p1"
    by (simp add: f1 c_def)
  have found: "patEnds (analyzeNet_options_found p1 i ob) optionsAnchorSpan" if "islice \<le> i"
    using o1 _ i3 i6 by (rule analyzeNet_options_found_patEnds) (simp_all add: f1 that s(1))
  have "fst (analyzeNet_options p islice) = p1
      \<or> islice \<le> i \<and> fst (analyzeNet_options p islice) = analyzeNet_options_found p1 i ob"
    using l unfolding p1_def c_def
    by (simp add: analyzeNet_options_def Let_def)
  with e1 found show ?thesis
    by auto
qed

lemma patEnds_span:
  assumes "patEnds p s" and "spL p patternSpan \<noteq> 0"
  shows "3 \<le> spL p patternSpan" and "spI p patternSpan + 6 \<le> sliceWritePtr p"
    and "spI p patternSpan mod 3 = 0" and "(spI p patternSpan + spL p patternSpan - 3) mod 3 = 0"
    and "0 \<le> spI p patternSpan + spL p patternSpan - 3"
    and "spI p patternSpan + spL p patternSpan - 3 + 6 \<le> sliceWritePtr p"
proof -
  from assms(1) have o: "ok p" and z: "0 \<le> spI p patternSpan" "0 \<le> spL p patternSpan"
    and e: "spI p s = spI p patternSpan + spL p patternSpan" "spI p s + 3 \<le> sliceWritePtr p"
    by (simp_all add: patEnds_def)
  have a: "spL p patternSpan mod 3 = 0" "spI p patternSpan mod 3 = 0"
    using o by (simp_all add: okD)
  from a(1) z(2) assms(2) show 3: "3 \<le> spL p patternSpan"
    by presburger
  with e show "spI p patternSpan + 6 \<le> sliceWritePtr p"
    by simp
  show "spI p patternSpan mod 3 = 0"
    by (rule a(2))
  from a show "(spI p patternSpan + spL p patternSpan - 3) mod 3 = 0"
    by presburger
  from 3 z(1) show "0 \<le> spI p patternSpan + spL p patternSpan - 3"
    by simp
  from e show "spI p patternSpan + spL p patternSpan - 3 + 6 \<le> sliceWritePtr p"
    by simp
qed

lemma analyzeNet_leftAnchor_patEnds:
  assumes e: "patEnds p patternRightAnchorSpan"
  shows "patEnds (analyzeNet_leftAnchor p) patternRightAnchorSpan"
proof (cases "spL p patternSpan \<noteq> 0 \<and> hasBits (cell p (spI p patternSpan)) BITPipe")
  case False
  with e show ?thesis
    by (auto simp: analyzeNet_leftAnchor_def)
next
  case True
  then have nz: "spL p patternSpan \<noteq> 0"
    by simp
  note s = patEnds_span [OF e nz]
  from e have o: "ok p" and z: "0 \<le> spI p patternSpan"
    and r: "spI p patternRightAnchorSpan = spI p patternSpan + spL p patternSpan"
      "spI p patternRightAnchorSpan + 3 \<le> sliceWritePtr p"
    by (simp_all add: patEnds_def)
  define i where "i = spI p patternSpan"
  define p1 where "p1 = setL patternLeftAnchorSpan 3 p"
  have o1: "ok p1"
    unfolding p1_def using o by (intro ok_setL) simp_all
  define p2 where "p2 = (if cell p1 (i + 2) > 2 then splitSlot i 2 p1
                         else setL patternSpan (spL p1 patternSpan - 3) p1)"
  have "ok (splitSlot i 2 p1)"
    using o1 z s(2,3) by (intro ok_splitSlot) (simp_all add: i_def p1_def)
  moreover have "(spL p1 patternSpan - 3) mod 3 = 0"
    using okD(2) [OF o1, of patternSpan] by presburger
  then have "ok (setL patternSpan (spL p1 patternSpan - 3) p1)"
    using o1 by (intro ok_setL)
  ultimately have o2: "ok p2"
    by (simp add: p2_def)
  have f2: "spI p2 patternSpan = i"
    "spI p2 patternRightAnchorSpan = spI p2 patternSpan + spL p2 patternSpan + 3"
    "spI p2 patternRightAnchorSpan + 3 \<le> sliceWritePtr p2" "3 \<le> spL p2 patternSpan + 3"
    using r s(1) by (auto simp: p2_def p1_def i_def)
  define p3 where "p3 = setI patternSpan (i + 3) p2"
  have "ok p3"
    unfolding p3_def using o2 s(3) by (intro ok_setI) (simp_all add: mod3_arith i_def)
  with f2 z have "patEnds p3 patternRightAnchorSpan"
    by (simp add: patEnds_def p3_def i_def)
  then have "patEnds (orFlavor fl p3) patternRightAnchorSpan" for fl
    by (simp add: patEnds_def)
  moreover have "analyzeNet_leftAnchor p = orFlavor
      (if cell p1 (i + 2) = 1 then BITFlavorNetLeftURLAnchor else BITFlavorNetLeftHnAnchor) p3"
    using True unfolding p3_def p2_def p1_def i_def
    by (simp add: analyzeNet_leftAnchor_def Let_def)
  ultimately show ?thesis
    by simp
qed

lemma analyzeNet_rightAnchor_ok:
  assumes e: "patEnds p patternRightAnchorSpan"
  shows "ok (analyzeNet_rightAnchor p) \<and> 0 \<le> spL (analyzeNet_rightAnchor p) patternSpan"
proof (cases "spL p patternSpan \<noteq> 0")
  case False
  with e show ?thesis
    by (simp add: analyzeNet_rightAnchor_def patEnds_def)
next
  case nz: True
  note s = patEnds_span [OF e nz]
  from e have o: "ok p" and z: "0 \<le> spI p patternSpan" "0 \<le> spL p patternSpan"
    and r: "spI p patternRightAnchorSpan = spI p patternSpan + spL p patternSpan"
    by (simp_all add: patEnds_def)
  define k where "k = spI p patternSpan + spL p patternSpan - 3"
  have k: "0 \<le> k" "k mod 3 = 0" "k + 6 \<le> sliceWritePtr p"
    using s(4,5,6) by (simp_all add: k_def)
  have l3: "spL p patternSpan = 3" if "\<not> 3 < spL p patternSpan"
    using that s(1) okD(2) [OF o, of patternSpan] by presburger
  have last: "(if spL p patternSpan > 3 then spI p patternRightAnchorSpan - 3
               else spI p patternSpan) = k"
    using l3 r by (simp add: k_def)
  define p1 where "p1 = setL patternRightAnchorSpan 3 (setI patternRightAnchorSpan k p)"
  have o1: "ok p1"
    unfolding p1_def using o k(2) by (intro ok_setI ok_setL) simp_all
  have "(spL p1 patternSpan - 3) mod 3 = 0"
    using okD(2) [OF o1, of patternSpan] by presburger
  then have short: "ok (setL patternSpan (spL p1 patternSpan - 3) p1)"
    using o1 by (intro ok_setL)
  have f1: "spL p1 patternSpan = spL p patternSpan" "sliceWritePtr p1 = sliceWritePtr p"
    "spI p1 patternRightAnchorSpan = k"
    by (simp_all add: p1_def)
  have "ok (splitSlot k l p1)" for l
    using o1 k by (intro ok_splitSlot) (simp_all add: f1)
  then have "ok (setI patternRightAnchorSpan (k + 3) (splitSlot k l p1))" for l
    using k(2) by (intro ok_setI) (simp_all add: mod3_arith)
  with short s(1) have pipe: "ok (analyzeNet_rightPipe p k)
      \<and> 0 \<le> spL (analyzeNet_rightPipe p k) patternSpan"
    unfolding p1_def by (simp add: analyzeNet_rightPipe_def Let_def)
  from short s(1) have caret: "ok (analyzeNet_rightCaret p k)
      \<and> 0 \<le> spL (analyzeNet_rightCaret p k) patternSpan"
    unfolding p1_def by (simp add: analyzeNet_rightCaret_def Let_def)
  from pipe caret o z(2) nz show ?thesis
    by (simp add: analyzeNet_rightAnchor_def Let_def last)
qed

lemma analyzeNet_anchors_ok:
  assumes e: "patEnds p optionsAnchorSpan"
  shows "ok (analyzeNet_anchors isRegex p) \<and> 0 \<le> spL (analyzeNet_anchors isRegex p) patternSpan"
proof -
  from e have o: "ok p" and z: "0 \<le> spL p patternSpan"
    by (simp_all add: patEnds_def)
  define p1 where "p1 = setI patternRightAnchorSpan (spI p optionsAnchorSpan)
     (setI patternLeftAnchorSpan (spI p patternSpan) p)"
  have o1: "ok p1"
    unfolding p1_def using o by (intro ok_setI) (simp_all add: okD)
  with e have "patEnds p1 patternRightAnchorSpan"
    by (simp add: patEnds_def p1_def)
  then have "patEnds (analyzeNet_leftAnchor p1) patternRightAnchorSpan"
    by (rule analyzeNet_leftAnchor_patEnds)
  then have "ok (analyzeNet_rightAnchor (analyzeNet_leftAnchor p1))
      \<and> 0 \<le> spL (analyzeNet_rightAnchor (analyzeNet_leftAnchor p1)) patternSpan"
    by (rule analyzeNet_rightAnchor_ok)
  with o1 z show ?thesis
    unfolding p1_def by (simp add: analyzeNet_anchors_def Let_def)
qed

text \<open>The backward scan for a space ends: the length of the pattern span is a number of slices.\<close>

lemma analyzeNet_space_loop_returns:
  "0 \<le> j \<Longrightarrow> j mod 3 = 0
     \<Longrightarrow> \<exists>j' pb'. analyzeNet_space_loop sls i j pb = Some (j', pb') \<and> j' mod 3 = 0"
proof (induction sls i j pb rule: analyzeNet_space_loop.induct)
  case (1 sls i j pb)
  show ?case
  proof (cases "j = 0")
    case True
    then show ?thesis
      by (simp add: analyzeNet_space_loop.simps [of sls i 0 pb])
  next
    case False
    with "1.prems" have j: "0 \<le> j - 3" "(j - 3) mod 3 = 0"
      by presburger+
    show ?thesis
    proof (cases "hasBits (aget sls (i + (j - 3))) BITSpace")
      case True
      with False j show ?thesis
        by (simp add: analyzeNet_space_loop.simps [of sls i j pb] Let_def)
    next
      case nb: False
      from j(1) have "\<not> (j - 3 < 0 \<and> i + (j - 3) < 0)"
        by simp
      from "1.IH" [OF False refl refl nb this j]
      obtain j' pb' where
        "analyzeNet_space_loop sls i (j - 3) (pb OR aget sls (i + (j - 3))) = Some (j', pb')"
        "j' mod 3 = 0"
        by auto
      with False nb j(1) show ?thesis
        by (simp add: analyzeNet_space_loop.simps [of sls i j pb] Let_def)
    qed
  qed
qed

lemma analyzeNet_dropToSpace_ok:
  assumes "ok p" and "j mod 3 = 0"
  shows "ok (analyzeNet_dropToSpace p j)"
proof -
  define p1 where "p1 = setL patternSpan (spL p patternSpan - (j + 3))
     (setI patternSpan (spI p patternSpan + (j + 3)) p)"
  have j3: "(j + 3) mod 3 = 0"
    using assms(2) by presburger
  have o1: "ok p1"
    unfolding p1_def using assms(1) j3 by (intro ok_setI ok_setL) (simp_all add: mod3_arith okD)
  define p2 where "p2 = snd (getNetPattern p1)"
  have o2: "ok p2"
    using o1 by (simp add: p2_def)
  define p3 where "p3 = (if reIsLocalhostRedirect (fst (getNetPattern p1))
                         then orFlavor BITFlavorIgnore p2 else p2)"
  have o3: "ok p3"
    using o2 by (simp add: p3_def)
  have "ok (markSlices 0 e BITIgnore p3)" for e
    using o3 by (intro ok_markSlices) simp_all
  with o3 have "ok (if interactive p3 then markSlices 0 (spI p3 patternSpan) BITIgnore p3 else p3)"
    by simp
  moreover have "analyzeNet_dropToSpace p j
      = (if interactive p3 then markSlices 0 (spI p3 patternSpan) BITIgnore p3 else p3)"
    unfolding p3_def p2_def p1_def
    by (simp add: analyzeNet_dropToSpace_def Let_def case_prod_beta)
  ultimately show ?thesis
    by simp
qed

lemma analyzeNet_spaces_ok:
  assumes "ok p" and "0 \<le> spL p patternSpan"
  shows "\<exists>q. analyzeNet_spaces p = Some q \<and> ok q"
proof -
  from assms have "spL p patternSpan mod 3 = 0"
    by (simp add: okD)
  with assms(2) obtain j pb where
    l: "analyzeNet_space_loop (slices p) (spI p patternSpan) (spL p patternSpan) (patternBits p)
        = Some (j, pb)" and j: "j mod 3 = 0"
    using analyzeNet_space_loop_returns [of "spL p patternSpan" "slices p" "spI p patternSpan"
      "patternBits p"] by auto
  have "ok (p\<lparr>patternBits := pb\<rparr>)"
    using assms(1) by simp
  then have "ok (analyzeNet_dropToSpace (p\<lparr>patternBits := pb\<rparr>) j)"
    using j by (rule analyzeNet_dropToSpace_ok)
  with l assms(1) show ?thesis
    by (simp add: analyzeNet_spaces_def Let_def)
qed

lemma analyzeNet_leadingWildcard_ok:
  assumes "ok p" and "i mod 3 = 0" and "l mod 3 = 0"
    and "analyzeNet_leadingWildcard p i l = (p', i', l')"
  shows "ok p'" and "i' mod 3 = 0" and "l' mod 3 = 0"
proof -
  define p1 where "p1 = setL patternSpan (l - 3) (setI patternSpan (i + 3) (orSlice i BITIgnore p))"
  have o1: "ok p1"
    unfolding p1_def using assms(1-3)
    by (intro ok_setI ok_setL ok_orSlice) (simp_all add: mod3_arith)
  have "ok (orSlice (spI p1 patternLeftAnchorSpan) BITIgnore p1)"
    using o1 by (intro ok_orSlice) (simp_all add: okD(1) [OF o1])
  with o1 have "ok (if spL p1 patternLeftAnchorSpan \<noteq> 0
                  then clearFlavor BITFlavorNetLeftAnchor
                         (orSlice (spI p1 patternLeftAnchorSpan) BITIgnore p1)
                  else p1)"
    by simp
  with assms have "ok p' \<and> i' mod 3 = 0 \<and> l' mod 3 = 0"
    unfolding p1_def
    by (auto simp: analyzeNet_leadingWildcard_def Let_def mod3_arith split: if_splits)
  then show "ok p'" and "i' mod 3 = 0" and "l' mod 3 = 0"
    by simp_all
qed

lemma analyzeNet_trailingWildcard_ok:
  assumes "ok p" and "i mod 3 = 0" and "l mod 3 = 0"
    and "analyzeNet_trailingWildcard p i l = (p', l')"
  shows "ok p'"
proof -
  have k: "(i + l - 3) mod 3 = 0"
    using assms(2,3) by presburger
  define p0 where "p0 = (if hasNoBits (cell p i) BITSlash \<or> hasNoBits (cell p (i + l - 6)) BITSlash
                  then orSlice (i + l - 3) BITIgnore p else p)"
  have o0: "ok p0"
    using assms(1) ok_orSlice [OF assms(1) k] by (simp add: p0_def)
  define p1 where "p1 = setL patternSpan (l - 3) p0"
  have o1: "ok p1"
    unfolding p1_def using o0 assms(3) by (intro ok_setL) (simp_all add: mod3_arith)
  have "ok (orSlice (spI p1 patternRightAnchorSpan) BITIgnore p1)"
    using o1 by (intro ok_orSlice) (simp_all add: okD(1) [OF o1])
  with o1 have "ok (if spL p1 patternRightAnchorSpan \<noteq> 0
                  then clearFlavor BITFlavorNetRightAnchor
                         (orSlice (spI p1 patternRightAnchorSpan) BITIgnore p1)
                  else p1)"
    by simp
  with assms(1,4) show "ok p'"
    unfolding p1_def p0_def
    by (auto simp: analyzeNet_trailingWildcard_def Let_def split: if_splits)
qed

lemma analyzeNet_pointless_ok:
  assumes "ok p"
  shows "ok (analyzeNet_pointlessLeft p i l)" and "ok (analyzeNet_pointlessRight p i l)"
proof -
  have "ok (orSlice (spI p s) BITIgnore p)" for s
    using assms by (intro ok_orSlice) (simp_all add: okD(1) [OF assms])
  with assms show "ok (analyzeNet_pointlessLeft p i l)" and "ok (analyzeNet_pointlessRight p i l)"
    by (simp_all add: analyzeNet_pointlessLeft_def analyzeNet_pointlessRight_def)
qed

lemma analyzeNet_wildcards_ok:
  assumes "ok p"
  shows "ok (analyzeNet_wildcards p)"
proof -
  obtain p1 i1 l1 where 1:
    "analyzeNet_leadingWildcard p (spI p patternSpan) (spL p patternSpan) = (p1, i1, l1)"
    by (cases "analyzeNet_leadingWildcard p (spI p patternSpan) (spL p patternSpan)")
  obtain p2 l2 where 2: "analyzeNet_trailingWildcard p1 i1 l1 = (p2, l2)"
    by (cases "analyzeNet_trailingWildcard p1 i1 l1")
  note a = analyzeNet_leadingWildcard_ok [OF assms okD(1,2) [OF assms] 1]
  have "ok p2"
    using a 2 by (rule analyzeNet_trailingWildcard_ok)
  then have "ok (analyzeNet_pointlessRight (analyzeNet_pointlessLeft p2 i1 l2) i1 l2)"
    by (intro analyzeNet_pointless_ok)
  then show ?thesis
    by (simp add: analyzeNet_wildcards_def Let_def 1 2)
qed

lemma analyzeNet_ok:
  assumes "netStart p"
  shows "\<exists>q. analyzeNet p = Some q \<and> ok q"
proof -
  obtain p1 islice where 1: "analyzeNet_exception p = (p1, islice)"
    by (cases "analyzeNet_exception p")
  with analyzeNet_exception_patStart [OF assms] have "patStart p1 islice"
    by simp
  then have e: "patEnds (fst (analyzeNet_options p1 islice)) optionsAnchorSpan"
    by (rule analyzeNet_options_patEnds)
  obtain p2 isRegex where 2: "analyzeNet_options p1 islice = (p2, isRegex)"
    by (cases "analyzeNet_options p1 islice")
  define p3 where "p3 = (if isRegex then orFlavor BITFlavorNetRegex p2 else p2)"
  from e 2 have "patEnds p3 optionsAnchorSpan"
    by (simp add: p3_def patEnds_def)
  then have "ok (analyzeNet_anchors isRegex p3) \<and> 0 \<le> spL (analyzeNet_anchors isRegex p3) patternSpan"
    by (rule analyzeNet_anchors_ok)
  then obtain q where q: "analyzeNet_spaces (analyzeNet_anchors isRegex p3) = Some q" "ok q"
    using analyzeNet_spaces_ok by blast
  from q(2) have "ok (analyzeNet_wildcards q)"
    by (rule analyzeNet_wildcards_ok)
  with q(1) show ?thesis
    by (simp add: analyzeNet_def Let_def 1 2 p3_def)
qed

subsection \<open>The analysis returns\<close>

lemma analyze_ok:
  assumes ne: "line \<noteq> []"
  shows "\<exists>q. analyze line p = Some q \<and> ok q"
proof -
  define q0 where "q0 = slice line p"
  define slot where "slot = spL q0 leftSpaceSpan"
  define w where "w = sliceWritePtr q0"
  note s = slice_ok [OF ne, of p, folded q0_def, folded w_def]
  have w: "6 \<le> w" "w mod 3 = 0"
    using okD(3,4) [OF s(1)] by (simp_all add: w_def)
  from s(4) have slot: "slot = 0 \<or> slot = 3"
    by (simp add: slot_def)
  then have slot3: "0 \<le> slot" "slot mod 3 = 0"
    by auto
  have cat: "category q0 \<noteq> CATStaticExtFilter"
    using s(6) by simp
  show ?thesis
  proof (cases "slot = spI q0 rightSpaceSpan")
    case True
    with s(1) show ?thesis
      by (simp add: analyze_def Let_def q0_def [symmetric] slot_def [symmetric])
  next
    case ns: False
    have slot6: "slot + 6 \<le> w"
      using slot s(5) ns w by presburger
    show ?thesis
    proof (cases "hasBits (cell q0 slot) BITLineComment")
      case True
      have "ok (analyzeExt slot q0)"
        using s(1) slot3 slot6 s(2) cat unfolding w_def by (rule analyzeExt_ok(1))
      with ns True s(1) show ?thesis
        by (simp add: analyze_def Let_def q0_def [symmetric] slot_def [symmetric])
    next
      case nc: False
      define p1 where "p1 = setI commentSpan (spI q0 rightSpaceSpan) q0"
      have o1: "ok p1"
        unfolding p1_def using s(1) by (intro ok_setI) (simp_all add: okD(1) [OF s(1)])
      have f1: "sliceWritePtr p1 = w" "cell p1 (w - 3) = 0" "category p1 \<noteq> CATStaticExtFilter"
        "allBits p1 = allBits q0"
        using s(2) cat by (simp_all add: p1_def w_def)
      have "0 \<le> spI q0 rightSpaceSpan" "spI q0 rightSpaceSpan + 3 \<le> w"
        using s(5) w by presburger+
      with o1 have n1: "netStart p1"
        by (simp add: netStart_def p1_def s(3) w_def)
      then obtain r1 where r1: "analyzeNet p1 = Some r1" "ok r1"
        using analyzeNet_ok by blast
      define h where "h = findFirstMatch p1 slot BITHash"
      show ?thesis
      proof (cases "hasBits (allBits q0) BITHash \<and> h \<noteq> - 1")
        case False
        with ns nc r1 show ?thesis
          by (auto simp: analyze_def Let_def q0_def [symmetric] slot_def [symmetric]
                p1_def [symmetric] h_def [symmetric] f1(4))
      next
        case True
        then have hne: "h \<noteq> - 1"
          by simp
        note f = findFirstMatch_found [OF h_def [symmetric] hne]
        from f(3) slot3(2) have h3: "h mod 3 = 0"
          by presburger
        from f(4) f1(2) have "h \<noteq> w - 3"
          by auto
        with f(2) h3 w(2) have h6: "h + 6 \<le> sliceWritePtr p1"
          unfolding f1(1) by presburger
        from f(1) slot3(1) have h0: "0 \<le> h"
          by simp
        have f1': "cell p1 (sliceWritePtr p1 - 3) = 0"
          using f1(1,2) by simp
        note x = analyzeExt_ok [OF o1 h0 h3 h6 f1' f1(3)]
        show ?thesis
        proof (cases "category (analyzeExt h p1) = CATStaticExtFilter")
          case ext: True
          with ns nc True x(1) show ?thesis
            by (simp add: analyze_def Let_def q0_def [symmetric] slot_def [symmetric]
                  p1_def [symmetric] h_def [symmetric] f1(4))
        next
          case nx: False
          from x(2) [OF nx] have same: "analyzeExt h p1 = p1" .
          have "netStart (analyze_comment_loop p1 h)"
            using n1 h3 f(2) by (rule analyze_comment_loop_netStart)
          then obtain r2 where r2: "analyzeNet (analyze_comment_loop p1 h) = Some r2" "ok r2"
            using analyzeNet_ok by blast
          with ns nc True nx same r1 show ?thesis
            by (simp add: analyze_def Let_def q0_def [symmetric] slot_def [symmetric]
                  p1_def [symmetric] h_def [symmetric] f1(4))
        qed
      qed
    qed
  qed
qed

lemma analyze_returns: "\<exists>q. analyze line p = Some q"
proof (cases "line = []")
  case True
  then show ?thesis
    by (simp add: analyze_empty)
next
  case False
  then show ?thesis
    using analyze_ok [of line p] by blast
qed

subsection \<open>The slices after the analysis (C1)\<close>

lemma ok_contiguous_sum:
  assumes "ok q"
  shows "contiguous q" and "sumLengths q = int (length (raw q))"
proof -
  from assms have w: "wfs q"
    by (rule okD)
  then have m: "sliceWritePtr q mod 3 = 0" "3 \<le> sliceWritePtr q"
    by (simp_all add: wfs_def)
  from wfs_contig [OF w] m(1) show "contiguous q"
    by (rule contig_contiguous)
  from wfs_contig [OF w] m
  have "sumLengths q = cell q (sliceWritePtr q - 2) + cell q (sliceWritePtr q - 1) - cell q 1"
    by (rule sumLengths_ends)
  with w show "sumLengths q = int (length (raw q))"
    by (simp add: wfs_def)
qed

lemma analyze_raw:
  assumes "analyze line p = Some q"
  shows "raw q = line"
proof -
  from static_analyze [OF assms] have "raw q = raw (slice line p)"
    by (simp add: static_def)
  then show ?thesis
    by (simp add: slice_raw)
qed

text \<open>
  C1. The slices that \<open>slice\<close> writes are contiguous and the sum of their lengths is the
  length of the line, for every line. The analysis of the line returns, and the slices it
  leaves, after every \<open>splitSlot\<close> it has made, are contiguous and their lengths still sum
  to the length of the line.
\<close>

theorem slices_contiguous_and_exhaustive:
  "contiguous (slice line p) \<and> sumLengths (slice line p) = int (length line)
   \<and> (\<exists>q. analyze line p = Some q \<and> raw q = line
          \<and> contiguous q \<and> sumLengths q = int (length line))"
proof (cases "line = []")
  case True
  with slice_contiguous_sum [of "[]" p] show ?thesis
    by (simp add: analyze_empty slice_raw)
next
  case False
  then obtain q where q: "analyze line p = Some q" "ok q"
    using analyze_ok by blast
  from q(1) have "raw q = line"
    by (rule analyze_raw)
  with ok_contiguous_sum [OF q(2)] q(1) slice_contiguous_sum [of line p] show ?thesis
    by simp
qed

subsection \<open>Blank lines (C10)\<close>

text \<open>
  C10, amended. The analysis of the empty line returns with the category \<open>None\<close>, no
  slice and \<open>isBlank()\<close> false. The analysis of any line returns, and \<open>isBlank()\<close> is then
  true if and only if the line has a whitespace code unit (tab, line feed, carriage return,
  space) and every other code unit of the line is one without class bits (0x00 to 0x08,
  0x0B, 0x0C, 0x0E to 0x1F, 0x7F).
\<close>

theorem isBlank_after_analyze:
  "analyze [] p = Some (slice [] p) \<and> category (slice [] p) = CATNone
   \<and> sliceWritePtr (slice [] p) = 0 \<and> \<not> isBlank (slice [] p)
   \<and> (\<exists>q. analyze line p = Some q
          \<and> isBlank q = ((\<forall>c \<in> set line. isWhitespace c \<or> isClassless c)
                         \<and> (\<exists>c \<in> set line. isWhitespace c)))"
proof (intro conjI)
  show "analyze [] p = Some (slice [] p)"
    by (rule analyze_empty)
  show "category (slice [] p) = CATNone" "sliceWritePtr (slice [] p) = 0"
    by (simp_all add: slice_empty reset_def)
  show "\<not> isBlank (slice [] p)"
    by (simp add: slice_empty reset_def isBlank_def BITSpace_1)
next
  obtain q where a: "analyze line p = Some q"
    using analyze_returns by blast
  from static_analyze [OF a] have "allBits q = allBits (slice line p)"
    by (simp add: static_def)
  then have "isBlank q = (orBits line = 1)"
    by (simp add: isBlank_def slice_allBits BITSpace_1)
  also have "\<dots> = ((\<forall>c \<in> set line. charBits c = 0 \<or> charBits c = BITSpace)
                     \<and> (\<exists>c \<in> set line. charBits c = BITSpace))"
    by (simp add: orBits_eq_Space BITSpace_1)
  finally have "isBlank q = ((\<forall>c \<in> set line. isWhitespace c \<or> isClassless c)
                     \<and> (\<exists>c \<in> set line. isWhitespace c))"
    by (auto simp: charBits_space)
  with a show "\<exists>q. analyze line p = Some q
          \<and> isBlank q = ((\<forall>c \<in> set line. isWhitespace c \<or> isClassless c)
                         \<and> (\<exists>c \<in> set line. isWhitespace c))"
    by blast
qed

theorem isBlank_after_analyze_witness:
  "isBlank (the (analyze [0x09, 0x20] freshParser))
   \<and> \<not> isBlank (the (analyze [0x20, 0x61] freshParser))"
  using isBlank_after_analyze [of freshParser "[0x09, 0x20]"]
    isBlank_after_analyze [of freshParser "[0x20, 0x61]"]
  by (auto simp: isWhitespace_def isClassless_def)

subsection \<open>The options of a network filter\<close>

text \<open>The iterator over the options only ever changes the slices of the parser.\<close>

definition sameButSlices :: "Parser \<Rightarrow> Parser \<Rightarrow> bool" where
  "sameButSlices p q \<longleftrightarrow> q\<lparr>slices := []\<rparr> = p\<lparr>slices := []\<rparr>"

lemma sameButSlices_refl [simp]: "sameButSlices p p"
  by (simp add: sameButSlices_def)

lemma sameButSlices_trans: "sameButSlices p q \<Longrightarrow> sameButSlices q r \<Longrightarrow> sameButSlices p r"
  by (simp add: sameButSlices_def)

lemma sameButSlices_prims [simp]:
  "sameButSlices p (markSlices b e bits p)"
  "sameButSlices p (orSlice k bits p)"
  "sameButSlices p (p\<lparr>slices := s\<rparr>)"
  by (simp_all add: sameButSlices_def markSlices_def orSlice_def)

lemma sameButSlices_step:
  "sameButSlices p q \<Longrightarrow> sameButSlices p (markSlices b e bits q)"
  "sameButSlices p q \<Longrightarrow> sameButSlices p (orSlice k bits q)"
  "sameButSlices p q \<Longrightarrow> sameButSlices p (q\<lparr>slices := s\<rparr>)"
  by (simp_all add: sameButSlices_def markSlices_def orSlice_def)

lemma sameButSlices_left [simp]:
  "sameButSlices (markSlices b e bits p) q \<longleftrightarrow> sameButSlices p q"
  "sameButSlices (orSlice k bits p) q \<longleftrightarrow> sameButSlices p q"
  "sameButSlices (p\<lparr>slices := s\<rparr>) q \<longleftrightarrow> sameButSlices p q"
  by (simp_all add: sameButSlices_def markSlices_def orSlice_def)

lemma sameButSlices_fields:
  assumes "sameButSlices p q"
  shows "flavorBits q = flavorBits p" "raw q = raw p" "interactive q = interactive p"
    "spans q = spans p" "category q = category p" "sliceWritePtr q = sliceWritePtr p"
proof -
  from assms have e: "q\<lparr>slices := []\<rparr> = p\<lparr>slices := []\<rparr>"
    by (simp add: sameButSlices_def)
  have "flavorBits q = flavorBits (q\<lparr>slices := []\<rparr>)" by simp
  also have "\<dots> = flavorBits p" unfolding e by simp
  finally show "flavorBits q = flavorBits p" .
  have "raw q = raw (q\<lparr>slices := []\<rparr>)" by simp
  also have "\<dots> = raw p" unfolding e by simp
  finally show "raw q = raw p" .
  have "interactive q = interactive (q\<lparr>slices := []\<rparr>)" by simp
  also have "\<dots> = interactive p" unfolding e by simp
  finally show "interactive q = interactive p" .
  have "spans q = spans (q\<lparr>slices := []\<rparr>)" by simp
  also have "\<dots> = spans p" unfolding e by simp
  finally show "spans q = spans p" .
  have "category q = category (q\<lparr>slices := []\<rparr>)" by simp
  also have "\<dots> = category p" unfolding e by simp
  finally show "category q = category p" .
  have "sliceWritePtr q = sliceWritePtr (q\<lparr>slices := []\<rparr>)" by simp
  also have "\<dots> = sliceWritePtr p" unfolding e by simp
  finally show "sliceWritePtr q = sliceWritePtr p" .
qed

lemma analyzeDomainList_loop_same:
  "analyzeDomainList_loop p beg to sep ob = Some q \<Longrightarrow> sameButSlices p q"
proof (induction p beg to sep ob rule: analyzeDomainList_loop.induct)
  case (1 p beg to sep ob)
  show ?case
  proof (cases "beg < to")
    case False
    with "1.prems" show ?thesis
      by (simp add: analyzeDomainList_loop.simps [of p beg to sep ob])
  next
    case True
    with "1.prems" obtain e where e: "skipUntil p beg to sep = Some e"
      by (cases "skipUntil p beg to sep")
         (simp_all add: analyzeDomainList_loop.simps [of p beg to sep ob])
    define end' where "end' = (if e = - 1 then to else e)"
    define p' where "p' = (if analyzeDomain p beg end' ob = False
                           then markSlices beg end' BITError p else p)"
    from True e "1.prems" have r: "analyzeDomainList_loop p' (end' + 3) to sep ob = Some q"
      by (auto simp: analyzeDomainList_loop.simps [of p beg to sep ob] Let_def end'_def p'_def
               split: if_splits)
    have "sameButSlices p p'"
      by (simp add: p'_def)
    moreover have "sameButSlices p' q"
      using "1.IH" [OF True e end'_def p'_def r] .
    ultimately show ?thesis
      by (rule sameButSlices_trans)
  qed
qed

lemma analyzeDomainList_same: "analyzeDomainList from to sep ob p = Some q \<Longrightarrow> sameButSlices p q"
  by (auto simp: analyzeDomainList_def sameButSlices_step split: if_splits option.splits
           dest!: analyzeDomainList_loop_same)

lemma init_store_same:
  "init_store ia lopt ltok i lval d v = Some v' \<Longrightarrow> sameButSlices (iv_parser v) (iv_parser v')"
  by (auto simp: init_store_def Let_def sameButSlices_step split: if_splits option.splits
           dest!: analyzeDomainList_same)

lemma init_count_parser [simp]: "iv_parser (fst (init_count d v)) = iv_parser v"
  by (simp add: init_count_def Let_def)

lemma init_option_same:
  "init_option exc ia ropts lopt v = Some (v', i) \<Longrightarrow> sameButSlices (iv_parser v) (iv_parser v')"
  by (auto simp: init_option_def Let_def case_prod_beta dest!: init_store_same
           intro: sameButSlices_trans [rotated])

lemma init_loop_same:
  "init_loop exc ia ropts lopt v = Some v' \<Longrightarrow> sameButSlices (iv_parser v) (iv_parser v')"
proof (induction exc ia ropts lopt v rule: init_loop.induct)
  case (1 exc ia ropts lopt v)
  show ?case
  proof (cases "lopt < ropts")
    case False
    with "1.prems" show ?thesis
      by (simp add: init_loop.simps [of exc ia ropts lopt v])
  next
    case True
    with "1.prems" obtain v1 i where o: "init_option exc ia ropts lopt v = Some (v1, i)"
      by (cases "init_option exc ia ropts lopt v")
         (auto simp: init_loop.simps [of exc ia ropts lopt v])
    with True "1.prems" have r: "init_loop exc ia ropts (i + 3) v1 = Some v'"
      by (simp add: init_loop.simps [of exc ia ropts lopt v])
    from init_option_same [OF o] "1.IH" [OF True o refl r] show ?thesis
      by (rule sameButSlices_trans)
  qed
qed

lemma init_same: "init p it = Some (p', it') \<Longrightarrow> sameButSlices p p'"
  by (auto simp: init_def Let_def case_prod_beta sameButSlices_step
           split: if_splits option.splits dest!: init_loop_same)

definition descriptors :: "int list \<Rightarrow> int \<Rightarrow> int list" where
  "descriptors os w = map (\<lambda>n. aget os (6 * int n)) [0 ..< nat (w div 6)]"

definition isRedirectType :: "int \<Rightarrow> bool" where
  "isRedirectType d \<longleftrightarrow> hasBits d OPTRedirectType"

definition isCsp :: "int \<Rightarrow> bool" where
  "isCsp d \<longleftrightarrow> d AND 0xFF = OPTTokenCsp"

definition isRedirectId :: "int \<Rightarrow> bool" where
  "isRedirectId d \<longleftrightarrow> d AND 0xFF \<in> {OPTTokenRedirect, OPTTokenRedirectRule, OPTTokenEmpty, OPTTokenMp4}"

definition known :: "int \<Rightarrow> bool" where
  "known d \<longleftrightarrow> (isRedirectType d \<longrightarrow> \<not> isCsp d) \<and> (isRedirectId d \<longrightarrow> isRedirectType d)"

lemmas opt_defs =
  OPTTokenInvalid_def OPTToken1p_def OPTToken3p_def OPTTokenAll_def OPTTokenBadfilter_def
  OPTTokenCname_def OPTTokenCsp_def OPTTokenCss_def OPTTokenDenyAllow_def OPTTokenDoc_def
  OPTTokenDomain_def OPTTokenEhide_def OPTTokenEmpty_def OPTTokenFont_def OPTTokenFrame_def
  OPTTokenGenericblock_def OPTTokenGhide_def OPTTokenImage_def OPTTokenImportant_def
  OPTTokenInlineFont_def OPTTokenInlineScript_def OPTTokenMedia_def OPTTokenMp4_def
  OPTTokenObject_def OPTTokenOther_def OPTTokenPing_def OPTTokenPopunder_def OPTTokenPopup_def
  OPTTokenRedirect_def OPTTokenRedirectRule_def OPTTokenScript_def OPTTokenShide_def
  OPTTokenXhr_def OPTTokenWebrtc_def OPTTokenWebsocket_def
  OPTCanNegate_def OPTBlockOnly_def OPTAllowOnly_def OPTMustAssign_def OPTAllowMayAssign_def
  OPTDomainList_def OPTType_def OPTNetworkType_def OPTRedirectType_def OPTNotSupported_def

lemma known_table: "\<forall>d \<in> snd ` set netOptionTokens. known d"
  by (simp add: netOptionTokens_def known_def isRedirectType_def isCsp_def isRedirectId_def
        hasBits_def opt_defs shl_def)

lemma known_Invalid: "known OPTTokenInvalid" "\<not> isRedirectType OPTTokenInvalid" "\<not> isCsp OPTTokenInvalid"
  by (simp_all add: known_def isRedirectType_def isCsp_def isRedirectId_def hasBits_def opt_defs shl_def)


lemma init_descriptor_known: "known (init_descriptor exc p lopt ltok i lval good0)"
proof -
  have "known d" if "map_of netOptionTokens t = Some d" for t d
  proof -
    from that have "(t, d) \<in> set netOptionTokens"
      by (rule map_of_SomeD)
    then have "d \<in> snd ` set netOptionTokens"
      by force
    with known_table show ?thesis
      by blast
  qed
  then show ?thesis
    by (auto simp: init_descriptor_def Let_def known_Invalid split: option.splits if_splits)
qed

lemma aget_aset_any: "aget (aset xs k v) j = (if j = k \<and> 0 \<le> k then v else aget xs j)"
proof (cases "0 \<le> k")
  case True
  then show ?thesis
    by (simp add: aget_aset)
next
  case False
  then show ?thesis
    by (simp add: aset_def)
qed

lemma descriptors_snoc:
  assumes "0 \<le> w" and "w mod 6 = 0" and "\<And>j. j < w \<Longrightarrow> aget os' j = aget os j"
  shows "descriptors os' (w + 6) = descriptors os w @ [aget os' w]"
proof -
  from assms(1,2) obtain k where k: "w = 6 * int k"
    by (metis mod_0_imp_dvd dvdE nonneg_int_cases zero_le_mult_iff zero_le_numeral not_numeral_le_zero)
  have "nat ((w + 6) div 6) = Suc k" "nat (w div 6) = k"
    using k by simp_all
  moreover have "map (\<lambda>n. aget os' (6 * int n)) [0 ..< k] = map (\<lambda>n. aget os (6 * int n)) [0 ..< k]"
    using assms(3) k by simp
  ultimately show ?thesis
    using k by (simp add: descriptors_def)
qed

definition count :: "(int \<Rightarrow> bool) \<Rightarrow> int list \<Rightarrow> nat" where
  "count P ds = length (filter P ds)"

definition singleVars :: "init_vars \<Rightarrow> bool" where
  "singleVars v \<longleftrightarrow>
     (let ds = descriptors (iv_optSlices v) (iv_writePtr v) in
      0 \<le> iv_writePtr v \<and> iv_writePtr v mod 6 = 0 \<and> list_all known ds
      \<and> count isRedirectType ds \<le> 1 \<and> (redirectIndex v = - 1 \<longrightarrow> count isRedirectType ds = 0)
      \<and> count isCsp ds \<le> 1 \<and> (cspIndex v = - 1 \<longrightarrow> count isCsp ds = 0))"

lemma init_count_fields [simp]:
  "iv_writePtr (fst (init_count d v)) = iv_writePtr v"
  "iv_optSlices (fst (init_count d v)) = iv_optSlices v"
  by (simp_all add: init_count_def Let_def)

lemma init_count_cases:
  assumes "init_count d v = (v1, d1)" and "known d" and "0 \<le> iv_writePtr v"
  shows "known d1"
    and "isRedirectType d1 \<Longrightarrow> redirectIndex v = - 1"
    and "isCsp d1 \<Longrightarrow> cspIndex v = - 1"
    and "redirectIndex v1 = - 1 \<Longrightarrow> redirectIndex v = - 1 \<and> \<not> isRedirectType d1"
    and "cspIndex v1 = - 1 \<Longrightarrow> cspIndex v = - 1 \<and> \<not> isCsp d1"
proof -
  define v0 where "v0 = (if hasBits d OPTType then
                 (let u = v\<lparr>typeCount := typeCount v + 1\<rparr> in
                  if hasBits d OPTNetworkType
                  then u\<lparr>networkTypeCount := networkTypeCount u + 1\<rparr> else u)
               else v)"
  have v0: "redirectIndex v0 = redirectIndex v" "cspIndex v0 = cspIndex v"
    "iv_writePtr v0 = iv_writePtr v"
    by (simp_all add: v0_def Let_def)
  have excl: "isRedirectType d \<Longrightarrow> \<not> isCsp d"
    using assms(2) by (simp add: known_def)
  have "init_count d v =
      (if isRedirectType d then
           (if redirectIndex v0 = - 1 then (v0\<lparr>redirectIndex := iv_writePtr v0\<rparr>, d)
            else (v0, OPTTokenInvalid))
         else if isCsp d then
           (if cspIndex v0 = - 1 then (v0\<lparr>cspIndex := iv_writePtr v0\<rparr>, d)
            else (v0, OPTTokenInvalid))
         else (v0, d))"
    by (simp only: init_count_def Let_def v0_def isRedirectType_def isCsp_def)
  with assms(1) have c: "(v1, d1) =
      (if isRedirectType d then
           (if redirectIndex v0 = - 1 then (v0\<lparr>redirectIndex := iv_writePtr v0\<rparr>, d)
            else (v0, OPTTokenInvalid))
         else if isCsp d then
           (if cspIndex v0 = - 1 then (v0\<lparr>cspIndex := iv_writePtr v0\<rparr>, d)
            else (v0, OPTTokenInvalid))
         else (v0, d))"
    by simp
  consider (r1) "isRedirectType d" "redirectIndex v = - 1"
      "v1 = v0\<lparr>redirectIndex := iv_writePtr v0\<rparr>" "d1 = d"
    | (r2) "isRedirectType d" "redirectIndex v \<noteq> - 1" "v1 = v0" "d1 = OPTTokenInvalid"
    | (c1) "\<not> isRedirectType d" "isCsp d" "cspIndex v = - 1"
      "v1 = v0\<lparr>cspIndex := iv_writePtr v0\<rparr>" "d1 = d"
    | (c2) "\<not> isRedirectType d" "isCsp d" "cspIndex v \<noteq> - 1" "v1 = v0" "d1 = OPTTokenInvalid"
    | (n) "\<not> isRedirectType d" "\<not> isCsp d" "v1 = v0" "d1 = d"
    using c v0 by (auto split: if_splits)
  then have "known d1 \<and> (isRedirectType d1 \<longrightarrow> redirectIndex v = - 1)
      \<and> (isCsp d1 \<longrightarrow> cspIndex v = - 1)
      \<and> (redirectIndex v1 = - 1 \<longrightarrow> redirectIndex v = - 1 \<and> \<not> isRedirectType d1)
      \<and> (cspIndex v1 = - 1 \<longrightarrow> cspIndex v = - 1 \<and> \<not> isCsp d1)"
  proof cases
    case r1
    with excl assms(2,3) v0 show ?thesis by auto
  next
    case r2
    with v0 show ?thesis by (simp add: known_Invalid)
  next
    case c1
    with assms(2,3) v0 show ?thesis by auto
  next
    case c2
    with v0 show ?thesis by (simp add: known_Invalid)
  next
    case n
    with assms(2) v0 show ?thesis by simp
  qed
  then show "known d1"
    and "isRedirectType d1 \<Longrightarrow> redirectIndex v = - 1"
    and "isCsp d1 \<Longrightarrow> cspIndex v = - 1"
    and "redirectIndex v1 = - 1 \<Longrightarrow> redirectIndex v = - 1 \<and> \<not> isRedirectType d1"
    and "cspIndex v1 = - 1 \<Longrightarrow> cspIndex v = - 1 \<and> \<not> isCsp d1"
    by blast+
qed

lemma init_store_fields:
  assumes "init_store ia lopt ltok i lval d v = Some v'" and "0 \<le> iv_writePtr v"
  shows "iv_writePtr v' = iv_writePtr v + 6"
    and "redirectIndex v' = redirectIndex v" and "cspIndex v' = cspIndex v"
    and "aget (iv_optSlices v') (iv_writePtr v) = d"
    and "\<And>j. j < iv_writePtr v \<Longrightarrow> aget (iv_optSlices v') j = aget (iv_optSlices v) j"
  using assms
  by (auto simp: init_store_def Let_def aget_aset_any split: if_splits option.splits)

lemma single_step:
  assumes s: "singleVars v" and c: "init_count d v = (v1, d1)" and k: "known d"
    and st: "init_store ia lopt ltok i lval d1 (v1\<lparr>iv_parser := q\<rparr>) = Some v'"
  shows "singleVars v'"
proof -
  let ?w = "iv_writePtr v"
  let ?ds = "descriptors (iv_optSlices v) ?w"
  from s have w: "0 \<le> ?w" "?w mod 6 = 0"
    and ds: "list_all known ?ds" "count isRedirectType ?ds \<le> 1"
      "redirectIndex v = - 1 \<Longrightarrow> count isRedirectType ?ds = 0"
      "count isCsp ?ds \<le> 1" "cspIndex v = - 1 \<Longrightarrow> count isCsp ?ds = 0"
    by (simp_all add: singleVars_def Let_def)
  have v1: "iv_writePtr v1 = ?w" "iv_optSlices v1 = iv_optSlices v"
    using c init_count_fields [of d v] by simp_all
  note cc = init_count_cases [OF c k w(1)]
  from w(1) v1 have w1: "0 \<le> iv_writePtr (v1\<lparr>iv_parser := q\<rparr>)"
    by simp
  note sf = init_store_fields [OF st w1]
  have w': "iv_writePtr v' = ?w + 6"
    using sf(1) v1 by simp
  have idx: "redirectIndex v' = redirectIndex v1" "cspIndex v' = cspIndex v1"
    using sf(2,3) by simp_all
  have "descriptors (iv_optSlices v') (?w + 6) = ?ds @ [aget (iv_optSlices v') ?w]"
    using w sf(5) v1 by (intro descriptors_snoc) simp_all
  moreover have "aget (iv_optSlices v') ?w = d1"
    using sf(4) v1 by simp
  ultimately have ds': "descriptors (iv_optSlices v') (iv_writePtr v') = ?ds @ [d1]"
    using w' by simp
  have "count isRedirectType (?ds @ [d1]) \<le> 1"
    using ds(2,3) cc(2) by (cases "isRedirectType d1") (simp_all add: count_def)
  moreover have "count isRedirectType (?ds @ [d1]) = 0" if "redirectIndex v' = - 1"
    using that idx cc(4) ds(3) by (simp add: count_def)
  moreover have "count isCsp (?ds @ [d1]) \<le> 1"
    using ds(4,5) cc(3) by (cases "isCsp d1") (simp_all add: count_def)
  moreover have "count isCsp (?ds @ [d1]) = 0" if "cspIndex v' = - 1"
    using that idx cc(5) ds(5) by (simp add: count_def)
  moreover have "list_all known (?ds @ [d1])"
    using ds(1) cc(1) by simp
  moreover have "0 \<le> iv_writePtr v'" "iv_writePtr v' mod 6 = 0"
    using w w' by simp_all
  ultimately show ?thesis
    unfolding singleVars_def Let_def ds' by blast
qed

lemma single_init_option:
  assumes "singleVars v" and "init_option exc ia ropts lopt v = Some (v', i)"
  shows "singleVars v'"
proof -
  define p where "p = iv_parser v"
  define ltok where "ltok = (if hasBits (cell p lopt) BITTilde then lopt + 3 else lopt)"
  define good where "good = (\<not> (hasBits (cell p lopt) BITTilde \<and> cell p (lopt + 2) > 1))"
  obtain sls i' lval where e: "init_option_end ia (slices p) lopt ropts ltok 0 = (sls, i', lval)"
    by (cases "init_option_end ia (slices p) lopt ropts ltok 0") auto
  define d where "d = init_descriptor exc (p\<lparr>slices := sls\<rparr>) lopt ltok i' lval good"
  obtain v1 d1 where c: "init_count d v = (v1, d1)"
    by (cases "init_count d v") auto
  from assms(2) e c
  have "init_store ia lopt ltok i' lval d1 (v1\<lparr>iv_parser := p\<lparr>slices := sls\<rparr>\<rparr>) = Some v'"
    by (auto simp: init_option_def Let_def p_def ltok_def good_def d_def)
  moreover have "known d"
    unfolding d_def by (rule init_descriptor_known)
  ultimately show ?thesis
    using assms(1) c by (auto intro: single_step)
qed

lemma single_init_loop:
  "init_loop exc ia ropts lopt v = Some v' \<Longrightarrow> singleVars v \<Longrightarrow> singleVars v'"
proof (induction exc ia ropts lopt v rule: init_loop.induct)
  case (1 exc ia ropts lopt v)
  show ?case
  proof (cases "lopt < ropts")
    case False
    with "1.prems" show ?thesis
      by (simp add: init_loop.simps [of exc ia ropts lopt v])
  next
    case True
    with "1.prems" obtain v1 i where o: "init_option exc ia ropts lopt v = Some (v1, i)"
      by (cases "init_option exc ia ropts lopt v")
         (auto simp: init_loop.simps [of exc ia ropts lopt v])
    with True "1.prems" have r: "init_loop exc ia ropts (i + 3) v1 = Some v'"
      by (simp add: init_loop.simps [of exc ia ropts lopt v])
    from "1.prems"(2) o have "singleVars v1"
      by (rule single_init_option)
    with "1.IH" [OF True o refl r] show ?thesis .
  qed
qed

lemma descriptors_empty [simp]: "descriptors os 0 = []"
  by (simp add: descriptors_def)

lemma single_start:
  "singleVars \<lparr>iv_parser = p, iv_optSlices = os, typeCount = 0, networkTypeCount = 0,
           redirectIndex = - 1, cspIndex = - 1, iv_writePtr = 0\<rparr>"
  by (simp add: singleVars_def count_def)

text \<open>Voiding one record afterwards does not add a \<open>csp\<close> or a \<open>redirect\<close>.\<close>

lemma count_void:
  assumes "\<not> P OPTTokenInvalid"
  shows "count P (descriptors (aset os k OPTTokenInvalid) w) \<le> count P (descriptors os w)"
proof -
  have "length (filter P (map (\<lambda>n. aget (aset os k OPTTokenInvalid) (6 * int n)) ns))
      \<le> length (filter P (map (\<lambda>n. aget os (6 * int n)) ns))" for ns
    using assms by (induction ns) (auto simp: aget_aset_any)
  then show ?thesis
    by (simp add: count_def descriptors_def)
qed

lemma known_void:
  assumes "list_all known (descriptors os w)"
  shows "list_all known (descriptors (aset os k OPTTokenInvalid) w)"
  using assms by (auto simp: descriptors_def list_all_iff aget_aset_any known_Invalid)

definition singleIt :: "NetOptionsIterator \<Rightarrow> bool" where
  "singleIt it \<longleftrightarrow>
     (let ds = descriptors (optSlices it) (writePtr it) in
      0 \<le> writePtr it \<and> writePtr it mod 6 = 0 \<and> readPtr it = 0 \<and> list_all known ds
      \<and> count isRedirectType ds \<le> 1 \<and> count isCsp ds \<le> 1)"

lemma init_single:
  assumes "init p it = Some (p', it')"
  shows "singleIt it'"
proof (cases "spL p optionsSpan = 0")
  case True
  with assms have "it' = it\<lparr>readPtr := 0, writePtr := 0, it_done := True, it_value := False\<rparr>"
    by (auto simp: init_def Let_def)
  then show ?thesis
    by (simp add: singleIt_def count_def)
next
  case False
  define v0 where "v0 = \<lparr>iv_parser = p, iv_optSlices = optSlices it, typeCount = 0,
     networkTypeCount = 0, redirectIndex = - 1, cspIndex = - 1, iv_writePtr = 0\<rparr>"
  from False assms obtain v where
    l: "init_loop (isException p) (interactive p)
          (spI p optionsSpan + spL p optionsSpan) (spI p optionsSpan) v0 = Some v"
    by (auto simp: init_def Let_def v0_def split: option.splits)
  have "singleVars v0"
    unfolding v0_def by (rule single_start)
  with l have s: "singleVars v"
    by (rule single_init_loop)
  define os1 where "os1 = (if cspIndex v \<noteq> - 1 \<and> typeCount v \<noteq> 0
     then aset (iv_optSlices v) (cspIndex v) OPTTokenInvalid else iv_optSlices v)"
  define os2 where "os2 = (if redirectIndex v \<noteq> - 1 \<and> typeCount v \<noteq> 1 \<and> networkTypeCount v \<noteq> 1
     then aset os1 (redirectIndex v) OPTTokenInvalid else os1)"
  from False assms l have it': "optSlices it' = os2" "writePtr it' = iv_writePtr v" "readPtr it' = 0"
    by (auto simp: init_def Let_def v0_def os1_def os2_def case_prod_beta split: if_splits)
  let ?w = "iv_writePtr v"
  from s have w: "0 \<le> ?w" "?w mod 6 = 0"
    and ds: "list_all known (descriptors (iv_optSlices v) ?w)"
      "count isRedirectType (descriptors (iv_optSlices v) ?w) \<le> 1"
      "count isCsp (descriptors (iv_optSlices v) ?w) \<le> 1"
    by (simp_all add: singleVars_def Let_def)
  have 1: "list_all known (descriptors os1 ?w)"
    "count isRedirectType (descriptors os1 ?w) \<le> 1"
    "count isCsp (descriptors os1 ?w) \<le> 1"
    using ds known_void [OF ds(1), of "cspIndex v"]
      count_void [of isRedirectType "iv_optSlices v" "cspIndex v" ?w]
      count_void [of isCsp "iv_optSlices v" "cspIndex v" ?w]
    by (auto simp: os1_def known_Invalid)
  have 2: "list_all known (descriptors os2 ?w)"
    "count isRedirectType (descriptors os2 ?w) \<le> 1"
    "count isCsp (descriptors os2 ?w) \<le> 1"
    using 1 known_void [OF 1(1), of "redirectIndex v"]
      count_void [of isRedirectType os1 "redirectIndex v" ?w]
      count_void [of isCsp os1 "redirectIndex v" ?w]
    by (auto simp: os2_def known_Invalid)
  with w it' show ?thesis
    by (simp add: singleIt_def Let_def)
qed

lemma init_option_returns: "\<exists>r. init_option exc False ropts lopt v = Some r"
  by (simp add: init_option_def init_store_def Let_def case_prod_beta)

lemma init_loop_returns: "\<exists>r. init_loop exc False ropts lopt v = Some r"
proof (induction exc "False" ropts lopt v rule: init_loop.induct)
  case (1 exc ropts lopt v)
  show ?case
  proof (cases "lopt < ropts")
    case False
    then show ?thesis
      by (simp add: init_loop.simps [of exc False ropts lopt v])
  next
    case True
    obtain v1 i where o: "init_option exc False ropts lopt v = Some (v1, i)"
      using init_option_returns [of exc ropts lopt v] by auto
    from "1.hyps" [OF True o refl] True o show ?thesis
      by (simp add: init_loop.simps [of exc False ropts lopt v])
  qed
qed

lemma init_returns:
  assumes "\<not> interactive p"
  shows "\<exists>r. init p it = Some r"
proof -
  obtain v where "init_loop (isException p) False (spI p optionsSpan + spL p optionsSpan)
       (spI p optionsSpan)
       \<lparr>iv_parser = p, iv_optSlices = optSlices it, typeCount = 0,
          networkTypeCount = 0, redirectIndex = - 1, cspIndex = - 1, iv_writePtr = 0\<rparr> = Some v"
    using init_loop_returns by blast
  with assms show ?thesis
    by (simp add: init_def Let_def case_prod_beta)
qed

definition itemAt :: "Parser \<Rightarrow> int list \<Rightarrow> nat \<Rightarrow> int \<times> jsstring option \<times> bool" where
  "itemAt p os n =
     (let i = 6 * int n in
      (aget os i AND 0xFF,
       if aget os (i + 4) \<noteq> aget os (i + 5)
       then Some (js_slice (raw p) (cell p (aget os (i + 4) + 1)) (cell p (aget os (i + 5) + 1)))
       else None,
       aget os (i + 2) \<noteq> aget os (i + 1)))"

lemma netOptions_items_eq:
  assumes "readPtr it = 6 * int k" and "writePtr it = 6 * int m" and "k \<le> m"
    and "\<not> it_done it"
  shows "netOptions_items p it = Some (map (itemAt p (optSlices it)) [k ..< m])"
  using assms
proof (induction "m - k" arbitrary: k it)
  case 0
  then have "it_done (next p it)"
    by (simp add: next_def)
  then show ?case
    using 0 by (simp add: netOptions_items.simps [of p it])
next
  case (Suc x)
  then have lt: "k < m"
    by simp
  define it' where "it' = next p it"
  from Suc.prems lt have ne: "readPtr it \<noteq> writePtr it"
    by simp
  then have f: "readPtr it' = 6 * int (Suc k)" "writePtr it' = 6 * int m"
    "optSlices it' = optSlices it" "\<not> it_done it'"
    "(item_id it', item_val it', item_not it') = itemAt p (optSlices it) k"
    using Suc.prems by (simp_all add: it'_def next_def Let_def itemAt_def)
  from f(1,2) lt have nlt: "\<not> writePtr it' < readPtr it'"
    by simp
  from Suc.hyps(2) have "x = m - Suc k"
    by simp
  from Suc.hyps(1) [OF this f(1,2) _ f(4)] lt f(3)
  have "netOptions_items p it' = Some (map (itemAt p (optSlices it)) [Suc k ..< m])"
    by simp
  with f(4,5) nlt have "netOptions_items p it
      = Some (itemAt p (optSlices it) k # map (itemAt p (optSlices it)) [Suc k ..< m])"
    by (simp add: netOptions_items.simps [of p it] it'_def [symmetric])
  with lt show ?case
    by (simp add: upt_conv_Cons)
qed

lemma itemAt_id: "map fst (map (itemAt p os) [0 ..< nat (w div 6)])
    = map (\<lambda>d. d AND 0xFF) (descriptors os w)"
  by (simp add: itemAt_def descriptors_def Let_def comp_def)

definition countIds :: "int set \<Rightarrow> (int \<times> jsstring option \<times> bool) list \<Rightarrow> nat" where
  "countIds ids items = length (filter (\<lambda>x. fst x \<in> ids) items)"

lemma countIds_map: "countIds ids items = length (filter (\<lambda>i. i \<in> ids) (map fst items))"
  by (simp add: countIds_def filter_map comp_def)

lemma count_le:
  assumes "list_all known ds"
  shows "length (filter (\<lambda>i. i \<in> {OPTTokenRedirect, OPTTokenRedirectRule, OPTTokenEmpty, OPTTokenMp4})
            (map (\<lambda>d. d AND 0xFF) ds)) \<le> count isRedirectType ds"
    and "length (filter (\<lambda>i. i \<in> {OPTTokenCsp}) (map (\<lambda>d. d AND 0xFF) ds)) = count isCsp ds"
proof -
  have "length (filter (\<lambda>d. isRedirectId d) ds) \<le> length (filter isRedirectType ds)"
    using assms
  proof (induction ds)
    case Nil
    show ?case by simp
  next
    case (Cons d ds)
    then show ?case
      by (auto simp: known_def)
  qed
  then show "length (filter (\<lambda>i. i \<in> {OPTTokenRedirect, OPTTokenRedirectRule, OPTTokenEmpty, OPTTokenMp4})
            (map (\<lambda>d. d AND 0xFF) ds)) \<le> count isRedirectType ds"
    by (simp add: filter_map comp_def count_def isRedirectId_def)
  show "length (filter (\<lambda>i. i \<in> {OPTTokenCsp}) (map (\<lambda>d. d AND 0xFF) ds)) = count isCsp ds"
    by (simp add: filter_map comp_def count_def isCsp_def [abs_def])
qed

lemma netOptions_single:
  assumes "netOptions p it = Some (p', items)"
  shows "countIds {OPTTokenCsp} items \<le> 1"
    and "countIds {OPTTokenRedirect, OPTTokenRedirectRule, OPTTokenEmpty, OPTTokenMp4} items \<le> 1"
    and "sameButSlices p p'"
proof -
  from assms obtain it' where i: "init p it = Some (p', it')"
    and xs: "if it_done it' then items = [] else netOptions_items p' it' = Some items"
    by (auto simp: netOptions_def split: option.splits if_splits)
  from i show "sameButSlices p p'"
    by (rule init_same)
  from i have s: "singleIt it'"
    by (rule init_single)
  let ?ds = "descriptors (optSlices it') (writePtr it')"
  from s have w: "0 \<le> writePtr it'" "writePtr it' mod 6 = 0" "readPtr it' = 0"
    and ds: "list_all known ?ds" "count isRedirectType ?ds \<le> 1" "count isCsp ?ds \<le> 1"
    by (simp_all add: singleIt_def Let_def)
  have "countIds {OPTTokenCsp} items \<le> 1
      \<and> countIds {OPTTokenRedirect, OPTTokenRedirectRule, OPTTokenEmpty, OPTTokenMp4} items \<le> 1"
  proof (cases "it_done it'")
    case True
    with xs show ?thesis
      by (simp add: countIds_def)
  next
    case False
    define m where "m = nat (writePtr it' div 6)"
    from w have "writePtr it' = 6 * int m" "readPtr it' = 6 * int 0"
      by (auto simp: m_def)
    from netOptions_items_eq [OF this(2,1) _ False, of p'] xs False
    have "items = map (itemAt p' (optSlices it')) [0 ..< m]"
      by simp
    then have "map fst items = map (\<lambda>d. d AND 0xFF) ?ds"
      using itemAt_id [of p' "optSlices it'" "writePtr it'"] by (simp add: m_def)
    with count_le [OF ds(1)] ds(2,3) show ?thesis
      by (simp add: countIds_map)
  qed
  then show "countIds {OPTTokenCsp} items \<le> 1"
    and "countIds {OPTTokenRedirect, OPTTokenRedirectRule, OPTTokenEmpty, OPTTokenMp4} items \<le> 1"
    by simp_all
qed

lemma netOptions_returns:
  assumes "\<not> interactive p"
  shows "\<exists>r. netOptions p it = Some r"
proof -
  from assms obtain p' it' where i: "init p it = Some (p', it')"
    using init_returns [of p it] by auto
  then have s: "singleIt it'"
    by (rule init_single)
  show ?thesis
  proof (cases "it_done it'")
    case True
    with i show ?thesis
      by (simp add: netOptions_def)
  next
    case False
    define m where "m = nat (writePtr it' div 6)"
    from s have "writePtr it' = 6 * int m" "readPtr it' = 6 * int 0"
      by (auto simp: m_def singleIt_def Let_def)
    from netOptions_items_eq [OF this(2,1) _ False, of p'] i False show ?thesis
      by (simp add: netOptions_def)
  qed
qed

text \<open>
  In interactive mode the domain lists are scanned with \<open>skipUntil\<close>, from one slice of the
  option to another: the scan ends.
\<close>

lemma skipUntil_loop_returns:
  "i \<le> to \<Longrightarrow> (to - i) mod 3 = 0
     \<Longrightarrow> \<exists>r. skipUntil_loop sls i to bits = Some r \<and> r \<le> to \<and> (to - r) mod 3 = 0"
proof (induction sls i to bits rule: skipUntil_loop.induct)
  case (1 sls i to bits)
  show ?case
  proof (cases "i = to \<or> aget sls i AND bits \<noteq> 0")
    case True
    with "1.prems" show ?thesis
      by (simp add: skipUntil_loop.simps [of sls i to bits])
  next
    case False
    with "1.prems" have n: "i + 3 \<le> to" "(to - (i + 3)) mod 3 = 0"
      by presburger+
    from "1.prems"(1) have "\<not> (to < i \<and> int (length sls) \<le> i)"
      by simp
    from "1.IH" [OF False this n] False "1.prems"(1) show ?thesis
      by (simp add: skipUntil_loop.simps [of sls i to bits])
  qed
qed

lemma analyzeDomainList_loop_returns:
  "(to - beg) mod 3 = 0 \<Longrightarrow> \<exists>q. analyzeDomainList_loop p beg to sep ob = Some q"
proof (induction p beg to sep ob rule: analyzeDomainList_loop.induct)
  case (1 p beg to sep ob)
  show ?case
  proof (cases "beg < to")
    case False
    then show ?thesis
      by (simp add: analyzeDomainList_loop.simps [of p beg to sep ob])
  next
    case True
    with "1.prems" have "beg + 3 \<le> to" "(to - (beg + 3)) mod 3 = 0"
      by presburger+
    then obtain e where e: "skipUntil p beg to sep = Some e" "(to - e) mod 3 = 0"
      using skipUntil_loop_returns [of "beg + 3" to "slices p" sep] by (auto simp: skipUntil_def)
    define end' where "end' = (if e = - 1 then to else e)"
    define p' where "p' = (if analyzeDomain p beg end' ob = False
                           then markSlices beg end' BITError p else p)"
    from e(2) have "(to - (end' + 3)) mod 3 = 0"
      unfolding end'_def by (cases "e = - 1") (simp, presburger)
    from "1.IH" [OF True e(1) end'_def p'_def this]
    obtain q where "analyzeDomainList_loop p' (end' + 3) to sep ob = Some q"
      by blast
    with True e(1) show ?thesis
      by (auto simp: analyzeDomainList_loop.simps [of p beg to sep ob] Let_def end'_def p'_def)
  qed
qed

lemma analyzeDomainList_returns:
  "(to - from) mod 3 = 0 \<Longrightarrow> \<exists>q. analyzeDomainList from to sep ob p = Some q"
  using analyzeDomainList_loop_returns [of to "from" p sep ob]
  by (auto simp: analyzeDomainList_def)

lemma init_option_end_aligned:
  "init_option_end ia sls lopt ropts i lval = (sls', i', lval')
     \<Longrightarrow> (i' - i) mod 3 = 0 \<and> (lval' = lval \<or> (i' - lval') mod 3 = 0)"
proof (induction ia sls lopt ropts i lval rule: init_option_end.induct)
  case (1 ia sls lopt ropts i lval)
  show ?case
  proof (cases "i < ropts \<and> \<not> hasBits (aget sls i) BITComma")
    case False
    with "1.prems" have "i' = i" "lval' = lval"
      by (auto simp: init_option_end.simps [of ia sls lopt ropts i lval] Let_def split: if_splits)
    then show ?thesis
      by simp
  next
    case True
    define lv where "lv = (if lval = 0 \<and> hasBits (aget sls i) BITEqual then i else lval)"
    from True "1.prems" have "init_option_end ia sls lopt ropts (i + 3) lv = (sls', i', lval')"
      by (simp add: init_option_end.simps [of ia sls lopt ropts i lval] Let_def lv_def)
    with "1.IH" [OF _ refl] True
    have r: "(i' - (i + 3)) mod 3 = 0" "lval' = lv \<or> (i' - lval') mod 3 = 0"
      by (simp_all add: lv_def)
    from r(1) have a: "(i' - i) mod 3 = 0"
      by presburger
    have "lval' = lval \<or> (i' - lval') mod 3 = 0"
    proof (cases "lv = lval")
      case True
      with r(2) show ?thesis
        by simp
    next
      case False
      then have "lv = i"
        by (simp add: lv_def split: if_splits)
      with r(2) a show ?thesis
        by auto
    qed
    with a show ?thesis
      by simp
  qed
qed

lemma init_store_returns:
  assumes "lval \<noteq> 0 \<Longrightarrow> (i - lval) mod 3 = 0"
  shows "\<exists>r. init_store ia lopt ltok i lval d v = Some r"
proof (cases "lval \<noteq> 0 \<and> ia \<and> hasBits d OPTDomainList")
  case False
  then show ?thesis
    by (auto simp: init_store_def Let_def)
next
  case True
  with assms have "(i - lval) mod 3 = 0"
    by simp
  then have "(i - (lval + 3)) mod 3 = 0"
    by presburger
  from analyzeDomainList_returns [OF this]
  have r: "analyzeDomainList (lval + 3) i sep ob p \<noteq> None" for sep ob p
    by (metis option.distinct(1))
  from True show ?thesis
    by (auto simp: init_store_def Let_def r split: option.splits)
qed

lemma init_option_always_returns: "\<exists>r. init_option exc ia ropts lopt v = Some r"
proof -
  define p where "p = iv_parser v"
  define ltok where "ltok = (if hasBits (cell p lopt) BITTilde then lopt + 3 else lopt)"
  obtain sls i lval where e: "init_option_end ia (slices p) lopt ropts ltok 0 = (sls, i, lval)"
    by (cases "init_option_end ia (slices p) lopt ropts ltok 0") auto
  from init_option_end_aligned [OF e] have a: "lval \<noteq> 0 \<Longrightarrow> (i - lval) mod 3 = 0"
    by auto
  show ?thesis
    using init_store_returns [OF a]
    by (simp add: init_option_def Let_def case_prod_beta p_def [symmetric] ltok_def [symmetric] e)
qed

lemma init_loop_always_returns: "\<exists>r. init_loop exc ia ropts lopt v = Some r"
proof (induction exc ia ropts lopt v rule: init_loop.induct)
  case (1 exc ia ropts lopt v)
  show ?case
  proof (cases "lopt < ropts")
    case False
    then show ?thesis
      by (simp add: init_loop.simps [of exc ia ropts lopt v])
  next
    case True
    obtain v1 i where o: "init_option exc ia ropts lopt v = Some (v1, i)"
      using init_option_always_returns [of exc ia ropts lopt v] by auto
    from "1.IH" [OF True o refl] True o show ?thesis
      by (simp add: init_loop.simps [of exc ia ropts lopt v])
  qed
qed

lemma init_always_returns: "\<exists>r. init p it = Some r"
proof -
  obtain v where "init_loop (isException p) (interactive p) (spI p optionsSpan + spL p optionsSpan)
       (spI p optionsSpan)
       \<lparr>iv_parser = p, iv_optSlices = optSlices it, typeCount = 0,
          networkTypeCount = 0, redirectIndex = - 1, cspIndex = - 1, iv_writePtr = 0\<rparr> = Some v"
    using init_loop_always_returns by blast
  then show ?thesis
    by (simp add: init_def Let_def case_prod_beta)
qed

lemma netOptions_always_returns: "\<exists>r. netOptions p it = Some r"
proof -
  obtain p' it' where i: "init p it = Some (p', it')"
    using init_always_returns [of p it] by auto
  then have s: "singleIt it'"
    by (rule init_single)
  show ?thesis
  proof (cases "it_done it'")
    case True
    with i show ?thesis
      by (simp add: netOptions_def)
  next
    case False
    define m where "m = nat (writePtr it' div 6)"
    from s have "writePtr it' = 6 * int m" "readPtr it' = 6 * int 0"
      by (auto simp: m_def singleIt_def Let_def)
    from netOptions_items_eq [OF this(2,1) _ False, of p'] i False show ?thesis
      by (simp add: netOptions_def)
  qed
qed


subsection \<open>The classes of the slices\<close>

text \<open>Each slice that \<open>slice\<close> writes has the class bits of a code unit of the line.\<close>

definition classes :: "int list \<Rightarrow> int \<Rightarrow> bool" where
  "classes sls ptr \<longleftrightarrow> (\<forall>k. 0 \<le> k \<and> k mod 3 = 0 \<and> k < ptr \<longrightarrow> (\<exists>c. aget sls k = charBits c))"

lemma classes_step:
  assumes "classes sls ptr" and "0 \<le> ptr" and "ptr mod 3 = 2"
  shows "classes (aset (aset (aset sls ptr x) (ptr + 1) (charBits c)) (ptr + 2) y) (ptr + 3)"
proof -
  have "\<exists>d. aget (aset (aset (aset sls ptr x) (ptr + 1) (charBits c)) (ptr + 2) y) k = charBits d"
    if k: "0 \<le> k" "k mod 3 = 0" "k < ptr + 3" for k
  proof (cases "k = ptr + 1")
    case True
    with assms(2) show ?thesis
      by (auto simp: aget_aset)
  next
    case False
    with k(2,3) assms(3) have "k < ptr"
      by presburger
    with assms(1) k(1,2) obtain d where "aget sls k = charBits d"
      by (auto simp: classes_def)
    with \<open>k < ptr\<close> assms(2) show ?thesis
      by (auto simp: aget_aset)
  qed
  then show ?thesis
    by (simp add: classes_def)
qed

lemma slice_loop_classes:
  "slice_loop line sls ptr allB aBits i j = (sls', ptr', allB', i', j') \<Longrightarrow> classes sls ptr
   \<Longrightarrow> 0 \<le> ptr \<Longrightarrow> ptr mod 3 = 2 \<Longrightarrow> classes sls' ptr'"
proof (induction line sls ptr allB aBits i j rule: slice_loop.induct)
  case (1 line sls ptr allB aBits i j)
  show ?case
  proof (cases "j < int (length line)")
    case False
    with "1.prems" show ?thesis
      by (simp add: slice_loop.simps [of line sls ptr allB aBits i j])
  next
    case True
    note lt = this
    show ?thesis
    proof (cases "charBits (line ! nat j) \<noteq> aBits")
      case True
      with lt "1.prems" have "slice_loop line
             (aset (aset (aset sls ptr (j - i)) (ptr + 1) (charBits (line ! nat j))) (ptr + 2) j)
             (ptr + 3) (allB OR charBits (line ! nat j)) (charBits (line ! nat j)) j (j + 1)
           = (sls', ptr', allB', i', j')"
        by (simp add: slice_loop.simps [of line sls ptr allB aBits i j] Let_def)
      moreover have "(ptr + 3) mod 3 = 2" "0 \<le> ptr + 3"
        using "1.prems"(3,4) by presburger+
      ultimately show ?thesis
        using "1.IH"(1) [OF lt refl True] classes_step [OF "1.prems"(2,3,4)] by simp
    next
      case False
      with lt "1.prems" have "slice_loop line sls ptr allB aBits i (j + 1) = (sls', ptr', allB', i', j')"
        by (simp add: slice_loop.simps [of line sls ptr allB aBits i j] Let_def)
      with "1.IH"(2) [OF lt refl False] "1.prems"(2,3,4) show ?thesis
        by simp
    qed
  qed
qed

lemma slice_classes:
  assumes ne: "line \<noteq> []" and k: "0 \<le> k" "k mod 3 = 0" "k + 6 \<le> sliceWritePtr (slice line p)"
  shows "\<exists>c. cell (slice line p) k = charBits c"
proof -
  obtain sls1 ptr1 allB1 i1 where
    L: "slice_loop line (aset (aset (slices p) 0 (charBits (line ! 0))) 1 0) 2
       (charBits (line ! 0)) (charBits (line ! 0)) 0 1 = (sls1, ptr1, allB1, i1, int (length line))"
    and sl: "sliced sls1 ptr1 i1"
    using slice_loop_result [OF ne] by blast
  note u = slice_unfold [OF ne L]
  have "classes (aset (aset (slices p) 0 (charBits (line ! 0))) 1 0) 2"
  proof -
    have h: "\<exists>c. aget (aset (aset (slices p) 0 (charBits (line ! 0))) 1 0) k = charBits c"
      if "0 \<le> k" "k mod 3 = 0" "k < 2" for k
    proof -
      from that have "k = 0"
        by presburger
      then show ?thesis
        by (auto simp: aget_aset)
    qed
    show ?thesis
      unfolding classes_def by (intro allI impI, elim conjE) (rule h)
  qed
  from slice_loop_classes [OF L this] have c: "classes sls1 ptr1"
    by simp
  from sl have p2: "2 \<le> ptr1"
    by (simp add: sliced_def)
  from k(3) u(2) have "k < ptr1"
    by simp
  with c k(1,2) obtain d where "aget sls1 k = charBits d"
    by (auto simp: classes_def)
  with \<open>k < ptr1\<close> p2 show ?thesis
    by (auto simp: cell_def u(1) aget_aset)
qed

text \<open>In the table the class \<open>SPACE\<close> comes alone.\<close>

lemma space_alone_table: "list_all (\<lambda>b. b AND 1 \<noteq> 0 \<longrightarrow> b = 1) charDescBits"
  by (simp add: charDescBits_def class_bit_defs)

lemma space_alone: "hasBits (charBits c) BITSpace \<Longrightarrow> charBits c = BITSpace"
proof (cases "c < 128")
  case True
  assume "hasBits (charBits c) BITSpace"
  with True space_alone_table show ?thesis
    by (simp add: list_all_length length_charDescBits charBits_def hasBits_def BITSpace_1)
next
  case False
  then have "charBits c = 537001984"
    by (simp add: charBits_def BITUnicode_def BITAlpha_def shl_def)
  moreover assume "hasBits (charBits c) BITSpace"
  ultimately show ?thesis
    by (simp add: hasBits_def BITSpace_1)
qed

lemma space_is_not_hash: "hasBits (charBits c) BITSpace \<Longrightarrow> \<not> hasBits (charBits c) BITHash"
proof -
  assume "hasBits (charBits c) BITSpace"
  then have "charBits c = BITSpace"
    by (rule space_alone)
  then show ?thesis
    by (simp add: hasBits_def BITSpace_def BITHash_def shl_def)
qed

subsection \<open>The spans of an extended filter (C5)\<close>

lemma span_coverage_sum:
  "span_coverage q \<longleftrightarrow>
     spL q leftSpaceSpan + spL q exceptionSpan + spL q patternLeftAnchorSpan + spL q patternSpan
     + spL q patternRightAnchorSpan + spL q optionsAnchorSpan + spL q optionsSpan
     + spL q commentSpan + spL q rightSpaceSpan + spL q eolSpan = sliceWritePtr q - 3"
  by (simp add: span_coverage_def all_spans_def add.assoc)

lemma analyzeExtPattern_spans [simp]:
  "spL (analyzeExtPattern p) s = spL p s"
  "spI (analyzeExtPattern p) s = spI p s"
  "sliceWritePtr (analyzeExtPattern p) = sliceWritePtr p"
  by (simp_all add: analyzeExtPattern_def Let_def spI_def spL_def BITFlavorUnsupportedOr_def
        split: prod.splits)

lemma flavor_category_update [simp]:
  "spL (p\<lparr>category := c\<rparr>) s = spL p s"
  "spL (p\<lparr>flavorBits := fb\<rparr>) s = spL p s"
  "spI (p\<lparr>category := c\<rparr>) s = spI p s"
  "spI (p\<lparr>flavorBits := fb\<rparr>) s = spI p s"
  by (simp_all add: spL_def spI_def)

text \<open>
  The five spans of an extended filter follow one another from the left spaces to the
  end-of-line slice; the other spans are empty.
\<close>

definition ext_tiled :: "Parser \<Rightarrow> bool" where
  "ext_tiled q \<longleftrightarrow>
     spI q leftSpaceSpan = 0 \<and> 0 \<le> spL q leftSpaceSpan
     \<and> spI q optionsSpan = spI q leftSpaceSpan + spL q leftSpaceSpan \<and> 0 \<le> spL q optionsSpan
     \<and> spI q optionsAnchorSpan = spI q optionsSpan + spL q optionsSpan
     \<and> 0 < spL q optionsAnchorSpan
     \<and> spI q patternSpan = spI q optionsAnchorSpan + spL q optionsAnchorSpan
     \<and> 0 \<le> spL q patternSpan
     \<and> spI q rightSpaceSpan = spI q patternSpan + spL q patternSpan \<and> 0 \<le> spL q rightSpaceSpan
     \<and> spI q eolSpan = spI q rightSpaceSpan + spL q rightSpaceSpan
     \<and> spI q eolSpan = sliceWritePtr q - 3
     \<and> spL q exceptionSpan = 0 \<and> spL q patternLeftAnchorSpan = 0
     \<and> spL q patternRightAnchorSpan = 0 \<and> spL q commentSpan = 0 \<and> spL q eolSpan = 0"

lemma ext_tiled_coverage: "ext_tiled q \<Longrightarrow> span_coverage q"
  by (simp add: span_coverage_sum ext_tiled_def)

definition extReady :: "Parser \<Rightarrow> bool" where
  "extReady p \<longleftrightarrow>
     spI p leftSpaceSpan = 0 \<and> 0 \<le> spL p leftSpaceSpan \<and> 0 \<le> spL p rightSpaceSpan
     \<and> spL p exceptionSpan = 0 \<and> spL p patternLeftAnchorSpan = 0
     \<and> spL p patternRightAnchorSpan = 0 \<and> spL p commentSpan = 0 \<and> spL p eolSpan = 0
     \<and> spI p eolSpan = spI p rightSpaceSpan + spL p rightSpaceSpan
     \<and> spI p eolSpan = sliceWritePtr p - 3"

lemma extReady_tiled:
  assumes "extReady p" and "spL p leftSpaceSpan \<le> from" and "from < to"
    and "to \<le> spI p rightSpaceSpan"
  shows "ext_tiled (analyzeExtPattern ((analyzeExt_spans from to p)\<lparr>category := c\<rparr>))"
    and "ext_tiled (analyzeExtPattern ((analyzeExt_spans from to p)\<lparr>flavorBits := fb, category := c\<rparr>))"
  using assms
  by (simp_all add: ext_tiled_def extReady_def analyzeExt_spans_def Let_def)

lemma extReady_splitSlot:
  assumes "extReady p" and "0 \<le> s" and "s < spI p rightSpaceSpan"
  shows "extReady (splitSlot s l p)"
  using assms by (simp add: extReady_def)

lemma analyzeExt_at_mono:
  "analyzeExt_at p e (fb, to) = Some (fb', to') \<Longrightarrow> to \<le> to'"
  by (auto simp: analyzeExt_at_def Let_def split: if_splits)

lemma analyzeExt_style_mono:
  "analyzeExt_style p e (fb, to) = Some (fb', to') \<Longrightarrow> to \<le> to'"
  by (auto simp: analyzeExt_style_def Let_def split: if_splits)

lemma analyzeExt_tiled:
  assumes o: "ok P" and f: "0 \<le> from" "from mod 3 = 0" "from + 6 \<le> sliceWritePtr P"
    and e: "cell P (sliceWritePtr P - 3) = 0"
    and r: "extReady P" and lf: "spL P leftSpaceSpan \<le> from"
    and h: "hasBits (cell P from) BITHash"
    and sp: "\<And>s. 0 \<le> s \<Longrightarrow> s mod 3 = 0 \<Longrightarrow> s + 6 \<le> sliceWritePtr P
             \<Longrightarrow> hasBits (cell P s) BITHash \<Longrightarrow> s < spI P rightSpaceSpan"
    and c: "category P \<noteq> CATStaticExtFilter"
    and ext: "category (analyzeExt from P) = CATStaticExtFilter"
  shows "ext_tiled (analyzeExt from P)"
proof -
  define l where "l = cell P (from + 2)"
  have f3: "(from + 3) mod 3 = 0"
    using f(2) by presburger
  have u0: "upto_eol P (from + 3)"
    using f f3 by (simp add: upto_eol_def)
  have rs3: "spI P rightSpaceSpan mod 3 = 0"
    using o by (rule okD)
  have next_slice: "s + 3 \<le> spI P rightSpaceSpan" if "s mod 3 = 0" "s < spI P rightSpaceSpan" for s
    using that rs3 by (intro mod3_gap)
  have frs: "from < spI P rightSpaceSpan"
    using f h by (rule sp)
  have lsp: "spL (splitSlot s k P) leftSpaceSpan \<le> from" for s k
    using lf by simp
  show ?thesis
  proof (cases "l = 1")
    case False
    from r f(1) frs have "extReady (splitSlot from 2 P)"
      by (rule extReady_splitSlot)
    then have "ext_tiled (analyzeExtPattern
        ((analyzeExt_spans from (from + 3) (splitSlot from 2 P))\<lparr>category := CATStaticExtFilter\<rparr>))"
      using lsp frs f(1) by (intro extReady_tiled) simp_all
    moreover have "ext_tiled (analyzeExtPattern
        ((analyzeExt_spans from (from + 3) P)\<lparr>category := CATStaticExtFilter\<rparr>))"
      using r lf next_slice [OF f(2) frs] by (intro extReady_tiled) simp_all
    ultimately show ?thesis
      using False ext c
      by (auto simp: analyzeExt_def Let_def l_def [symmetric] split: if_splits)
  next
    case True
    show ?thesis
    proof (cases "Option.bind (analyzeExt_at P (spI P rightSpaceSpan) (0, from + 3))
                    (analyzeExt_style P (spI P rightSpaceSpan))")
      case None
      with True ext c show ?thesis
        by (simp add: analyzeExt_def Let_def l_def [symmetric] split: if_splits)
    next
      case (Some x)
      obtain fb to where x: "x = (fb, to)"
        by (cases x)
      from Some x obtain fb1 to1 where
        1: "analyzeExt_at P (spI P rightSpaceSpan) (0, from + 3) = Some (fb1, to1)"
        and 2: "analyzeExt_style P (spI P rightSpaceSpan) (fb1, to1) = Some (fb, to)"
        by (cases "analyzeExt_at P (spI P rightSpaceSpan) (0, from + 3)") auto
      from analyzeExt_at_upto [OF 1 u0 o e] have "upto_eol P to1" .
      from analyzeExt_style_upto [OF 2 this o e] have u: "upto_eol P to" .
      from analyzeExt_at_mono [OF 1] analyzeExt_style_mono [OF 2] have ft: "from + 3 \<le> to"
        by simp
      show ?thesis
      proof (cases "hasNoBits (cell P to) BITHash")
        case nh: True
        with True Some x ext c show ?thesis
          by (simp add: analyzeExt_def Let_def l_def [symmetric] split: if_splits)
      next
        case nh: False
        then have hh: "hasBits (cell P to) BITHash"
          by (simp add: hasBits_def hasNoBits_def)
        from upto_eol_next [OF u o e this] have t: "to + 6 \<le> sliceWritePtr P"
          by simp
        from u have t0: "0 \<le> to" "to mod 3 = 0"
          by (simp_all add: upto_eol_def)
        have trs: "to < spI P rightSpaceSpan"
          using t0 t hh by (rule sp)
        with r t0(1) have "extReady (splitSlot to 1 P)"
          by (rule extReady_splitSlot)
        then have "ext_tiled (analyzeExtPattern
            ((analyzeExt_spans from (to + 3) (splitSlot to 1 P))
               \<lparr>flavorBits := fb, category := CATStaticExtFilter\<rparr>))"
          using lsp ft trs by (intro extReady_tiled) simp_all
        moreover have "ext_tiled (analyzeExtPattern
            ((analyzeExt_spans from (to + 3) P)\<lparr>flavorBits := fb, category := CATStaticExtFilter\<rparr>))"
          using r lf ft next_slice [OF t0(2) trs] by (intro extReady_tiled) simp_all
        ultimately show ?thesis
          using True Some x nh ext c
          by (auto simp: analyzeExt_def Let_def l_def [symmetric] split: if_splits)
      qed
    qed
  qed
qed

lemma slice_extReady:
  assumes ne: "line \<noteq> []"
  shows "extReady (slice line p)"
    and "\<And>s. 0 \<le> s \<Longrightarrow> s mod 3 = 0 \<Longrightarrow> s + 6 \<le> sliceWritePtr (slice line p)
           \<Longrightarrow> hasBits (cell (slice line p) s) BITHash \<Longrightarrow> s < spI (slice line p) rightSpaceSpan"
proof -
  let ?q = "slice line p"
  obtain sls1 ptr1 allB1 i1 where
    L: "slice_loop line (aset (aset (slices p) 0 (charBits (line ! 0))) 1 0) 2
       (charBits (line ! 0)) (charBits (line ! 0)) 0 1 = (sls1, ptr1, allB1, i1, int (length line))"
    and sl: "sliced sls1 ptr1 i1"
    using slice_loop_result [OF ne] by blast
  note u = slice_unfold [OF ne L]
  have z: "spL ?q exceptionSpan = 0" "spL ?q patternLeftAnchorSpan = 0"
    "spL ?q patternRightAnchorSpan = 0" "spL ?q commentSpan = 0"
    using u(16) [of exceptionSpan] u(16) [of patternLeftAnchorSpan]
      u(16) [of patternRightAnchorSpan] u(16) [of commentSpan] by simp_all
  from z u(2,10,11,12,13,14,15) show "extReady ?q"
    by (simp add: extReady_def)
  fix s :: int
  assume s: "0 \<le> s" "s mod 3 = 0" "s + 6 \<le> sliceWritePtr ?q" "hasBits (cell ?q s) BITHash"
  from slice_classes [OF ne s(1,2,3)] obtain c where c: "cell ?q s = charBits c"
    by blast
  show "s < spI ?q rightSpaceSpan"
  proof (cases "ptr1 - 2 > 0 \<and> cell ?q (ptr1 - 2) AND BITSpace \<noteq> 0")
    case False
    with u(14) s(3) u(2) show ?thesis
      by auto
  next
    case True
    have "s \<noteq> ptr1 - 2"
    proof
      assume "s = ptr1 - 2"
      with True c have "hasBits (charBits c) BITSpace"
        by (simp add: hasBits_def)
      then have "\<not> hasBits (charBits c) BITHash"
        by (rule space_is_not_hash)
      with s(4) c show False
        by simp
    qed
    with True u(14) s(3) u(2) show ?thesis
      by auto
  qed
qed

subsection \<open>Where the flavor \<open>NetRegex\<close> is decided (C7)\<close>

lemma and_or_regex:
  "b AND BITFlavorNetRegex = 0 \<Longrightarrow> (x OR b) AND BITFlavorNetRegex = x AND BITFlavorNetRegex"
  by (simp add: bit.conj_disj_distrib2)

lemma and_not_regex:
  assumes "b AND BITFlavorNetRegex = 0"
  shows "(x AND NOT b) AND BITFlavorNetRegex = x AND BITFlavorNetRegex"
proof (rule bit_eqI)
  fix n
  have "bit (b AND BITFlavorNetRegex) n = bit (0::int) n"
    by (simp only: assms)
  then have "\<not> (bit b n \<and> bit BITFlavorNetRegex n)"
    by (simp add: bit_and_iff)
  then show "bit ((x AND NOT b) AND BITFlavorNetRegex) n = bit (x AND BITFlavorNetRegex) n"
    by (auto simp: bit_and_iff bit_not_iff)
qed

lemma regex_flags:
  "BITFlavorNetLeftURLAnchor AND BITFlavorNetRegex = 0"
  "BITFlavorNetLeftHnAnchor AND BITFlavorNetRegex = 0"
  "BITFlavorNetRightURLAnchor AND BITFlavorNetRegex = 0"
  "BITFlavorNetRightHnAnchor AND BITFlavorNetRegex = 0"
  "BITFlavorNetLeftAnchor AND BITFlavorNetRegex = 0"
  "BITFlavorNetRightAnchor AND BITFlavorNetRegex = 0"
  "BITFlavorIgnore AND BITFlavorNetRegex = 0"
  "BITFlavorException AND BITFlavorNetRegex = 0"
  "BITFlavorError AND BITFlavorNetRegex = 0"
  "BITFlavorNetRegex AND BITFlavorNetRegex \<noteq> 0"
  by (simp_all add: BITFlavorNetLeftURLAnchor_def BITFlavorNetLeftHnAnchor_def
        BITFlavorNetRightURLAnchor_def BITFlavorNetRightHnAnchor_def BITFlavorNetLeftAnchor_def
        BITFlavorNetRightAnchor_def BITFlavorIgnore_def BITFlavorException_def BITFlavorError_def
        BITFlavorNetRegex_def shl_def)

lemma patternIsRegex_prims [simp]:
  "patternIsRegex (setI s v p) = patternIsRegex p"
  "patternIsRegex (setL s v p) = patternIsRegex p"
  "patternIsRegex (orSlice k b p) = patternIsRegex p"
  "patternIsRegex (markSlices beg e b p) = patternIsRegex p"
  "patternIsRegex (splitSlot slot l p) = patternIsRegex p"
  "patternIsRegex (snd (getNetPattern p)) = patternIsRegex p"
  "patternIsRegex (p\<lparr>patternBits := pb\<rparr>) = patternIsRegex p"
  "patternIsRegex (p\<lparr>optionsBits := ob\<rparr>) = patternIsRegex p"
  "patternIsRegex (p\<lparr>category := c\<rparr>) = patternIsRegex p"
  by (simp_all add: patternIsRegex_def)

lemma patternIsRegex_flavor:
  "b AND BITFlavorNetRegex = 0 \<Longrightarrow> patternIsRegex (orFlavor b p) = patternIsRegex p"
  "b AND BITFlavorNetRegex = 0 \<Longrightarrow> patternIsRegex (clearFlavor b p) = patternIsRegex p"
  "patternIsRegex (orFlavor BITFlavorNetRegex p)"
  using regex_flags(10)
  by (simp_all add: patternIsRegex_def and_or_regex and_not_regex bit.conj_disj_distrib2
        or_eq_0_iff)

lemma patternIsRegex_anchors:
  "patternIsRegex (analyzeNet_leftAnchor p) = patternIsRegex p"
  "patternIsRegex (analyzeNet_rightAnchor p) = patternIsRegex p"
  "patternIsRegex (analyzeNet_anchors isRegex p) = patternIsRegex p"
proof -
  show l: "patternIsRegex (analyzeNet_leftAnchor p) = patternIsRegex p" for p
    by (simp add: analyzeNet_leftAnchor_def Let_def patternIsRegex_flavor regex_flags)
  show r: "patternIsRegex (analyzeNet_rightAnchor p) = patternIsRegex p" for p
    by (simp add: analyzeNet_rightAnchor_def analyzeNet_rightPipe_def analyzeNet_rightCaret_def
          Let_def patternIsRegex_flavor regex_flags)
  show "patternIsRegex (analyzeNet_anchors isRegex p) = patternIsRegex p"
    by (simp add: analyzeNet_anchors_def Let_def l r)
qed

lemma patternIsRegex_spaces:
  "analyzeNet_spaces p = Some q \<Longrightarrow> patternIsRegex q = patternIsRegex p"
  by (auto simp: analyzeNet_spaces_def analyzeNet_dropToSpace_def Let_def case_prod_beta
        patternIsRegex_flavor regex_flags split: option.splits if_splits)

lemma patternIsRegex_wildcards:
  "patternIsRegex (analyzeNet_wildcards p) = patternIsRegex p"
proof -
  have 1: "patternIsRegex (fst (analyzeNet_leadingWildcard p i l)) = patternIsRegex p" for p i l
    by (simp add: analyzeNet_leadingWildcard_def Let_def patternIsRegex_flavor regex_flags)
  have 2: "patternIsRegex (fst (analyzeNet_trailingWildcard p i l)) = patternIsRegex p" for p i l
    by (simp add: analyzeNet_trailingWildcard_def Let_def patternIsRegex_flavor regex_flags)
  have 3: "patternIsRegex (analyzeNet_pointlessLeft p i l) = patternIsRegex p" for p i l
    by (simp add: analyzeNet_pointlessLeft_def patternIsRegex_flavor regex_flags)
  have 4: "patternIsRegex (analyzeNet_pointlessRight p i l) = patternIsRegex p" for p i l
    by (simp add: analyzeNet_pointlessRight_def patternIsRegex_flavor regex_flags)
  show ?thesis
    by (simp add: analyzeNet_wildcards_def Let_def case_prod_beta 1 2 3 4)
qed

lemma patternIsRegex_exception:
  "patternIsRegex (fst (analyzeNet_exception p)) = patternIsRegex p"
  by (simp add: analyzeNet_exception_def Let_def patternIsRegex_flavor regex_flags)

lemma patternIsRegex_options:
  "patternIsRegex (fst (analyzeNet_options p islice)) = patternIsRegex p"
  by (simp add: analyzeNet_options_def analyzeNet_options_found_def analyzeNet_dollar_def Let_def
        case_prod_beta patternIsRegex_flavor regex_flags)

text \<open>The flavor after \<open>analyzeNet\<close> is the local \<open>patternIsRegex\<close> of the source.\<close>

definition afterOptions :: "Parser \<Rightarrow> Parser \<times> bool" where
  "afterOptions p0 = (let (p, islice) = analyzeNet_exception p0 in analyzeNet_options p islice)"

lemma analyzeNet_regex:
  assumes "analyzeNet p0 = Some q"
  shows "patternIsRegex q \<longleftrightarrow> patternIsRegex p0 \<or> snd (afterOptions p0)"
proof -
  obtain p1 islice where 1: "analyzeNet_exception p0 = (p1, islice)"
    by (cases "analyzeNet_exception p0")
  obtain p2 isRegex where 2: "analyzeNet_options p1 islice = (p2, isRegex)"
    by (cases "analyzeNet_options p1 islice")
  define p3 where "p3 = (if isRegex then orFlavor BITFlavorNetRegex p2 else p2)"
  from assms obtain p4 where 4: "analyzeNet_spaces (analyzeNet_anchors isRegex p3) = Some p4"
    and q: "q = (analyzeNet_wildcards p4)\<lparr>category := CATStaticNetFilter\<rparr>"
    by (auto simp: analyzeNet_def Let_def 1 2 p3_def split: option.splits)
  have "patternIsRegex p2 = patternIsRegex p0"
    using patternIsRegex_options [of p1 islice] patternIsRegex_exception [of p0]
    by (simp add: 1 2)
  then have "patternIsRegex p3 \<longleftrightarrow> patternIsRegex p0 \<or> isRegex"
    by (simp add: p3_def patternIsRegex_flavor)
  moreover have "patternIsRegex q = patternIsRegex p3"
    using patternIsRegex_spaces [OF 4]
    by (simp add: q patternIsRegex_wildcards patternIsRegex_anchors)
  ultimately show ?thesis
    by (simp add: afterOptions_def 1 2)
qed

lemma slash_error: "hasBits (x OR BITError) BITSlash = hasBits x BITSlash"
proof -
  have "BITError AND BITSlash = 0"
    by (simp add: BITError_def BITSlash_def shl_def)
  then show ?thesis
    by (simp add: hasBits_def bit.conj_disj_distrib2)
qed

lemma analyzeNet_dollar_cell:
  assumes o: "ok p" and i: "0 \<le> i" "i + 6 \<le> sliceWritePtr p" and m: "m \<le> i"
  shows "hasBits (cell (fst (analyzeNet_dollar p i l)) m) BITSlash = hasBits (cell p m) BITSlash"
proof -
  from o have wl: "sliceWritePtr p \<le> int (length (slices p))"
    by (simp add: ok_def wfs_def)
  from i have i': "i \<le> sliceWritePtr p"
    by simp
  have "cell (splitSlot i (l - 1) p) m = cell p m"
    unfolding splitSlot_cell(1) [OF i(1) i' wl] using m by simp
  then show ?thesis
    by (simp add: analyzeNet_dollar_def Let_def markSlices_cell slash_error)
qed

lemma patternLooksRegex_span:
  "patternLooksRegex p \<Longrightarrow> 3 \<le> spL p patternSpan"
  by (auto simp: patternLooksRegex_def Let_def)

lemma optionsBits_update [simp]:
  "spI (p\<lparr>optionsBits := ob\<rparr>) s = spI p s"
  "spL (p\<lparr>optionsBits := ob\<rparr>) s = spL p s"
  "cell (p\<lparr>optionsBits := ob\<rparr>) m = cell p m"
  by (simp_all add: spI_def spL_def cell_def)

lemma analyzeNet_options_found_fields:
  "spI (analyzeNet_options_found p i ob) patternSpan = spI (fst (analyzeNet_dollar p i (cell p (i + 2)))) patternSpan"
  "cell (analyzeNet_options_found p i ob) m = cell (fst (analyzeNet_dollar p i (cell p (i + 2)))) m"
  by (simp_all add: analyzeNet_options_found_def Let_def case_prod_beta)

text \<open>
  The local \<open>patternIsRegex\<close> is the shape of the pattern span once the options are split
  from it.
\<close>

lemma analyzeNet_options_regex:
  assumes "patStart p islice"
  shows "snd (analyzeNet_options p islice)
     \<longleftrightarrow> patternSpanIsRegexShaped (fst (analyzeNet_options p islice))"
proof -
  from assms have o: "ok p" and s: "0 \<le> islice" "islice mod 3 = 0" "islice \<le> spI p commentSpan"
    "spI p commentSpan + 3 \<le> sliceWritePtr p"
    by (simp_all add: patStart_def)
  define c where "c = spI p commentSpan"
  define p1 where "p1 = setL patternSpan (c - islice) (setI patternSpan islice
     (setI optionsAnchorSpan c (setI optionsSpan c p)))"
  have c3: "c mod 3 = 0"
    unfolding c_def using o by (rule okD)
  have o1: "ok p1"
    unfolding p1_def using o c3 s(2) by (intro ok_setI ok_setL) (simp_all add: mod3_arith)
  have f1: "spI p1 patternSpan = islice" "spL p1 patternSpan = c - islice"
    "spI p1 optionsAnchorSpan = c" "sliceWritePtr p1 = sliceWritePtr p"
    by (simp_all add: p1_def)
  define start where "start \<longleftrightarrow> islice < c \<and> hasBits (cell p1 islice) BITSlash"
  have shape1: "patternSpanIsRegexShaped p1 \<longleftrightarrow> start \<and> patternLooksRegex p1"
    using s(3) patternLooksRegex_span [of p1]
    by (auto simp: patternSpanIsRegexShaped_def start_def f1 c_def)
  obtain i ob where l: "analyzeNet_options_loop p1 islice c 0 = (i, ob)"
    by (cases "analyzeNet_options_loop p1 islice c 0")
  from analyzeNet_options_loop_result [OF l] have i: "i < c" "(c - i) mod 3 = 0"
    by simp_all
  from i(2) c3 have i3: "i mod 3 = 0"
    by presburger
  with c3 i(1) have "i + 3 \<le> c"
    by (intro mod3_gap)
  with s(4) have i6: "i + 6 \<le> sliceWritePtr p1"
    by (simp add: f1 c_def)
  define p2 where "p2 = analyzeNet_options_found p1 i ob"
  have shape2: "patternSpanIsRegexShaped p2 \<longleftrightarrow> start \<and> patternLooksRegex p2" if ge: "islice \<le> i"
  proof -
    from ge s(1) have i0: "0 \<le> i"
      by simp
    obtain q i' where d: "analyzeNet_dollar p1 i (cell p1 (i + 2)) = (q, i')"
      by (cases "analyzeNet_dollar p1 i (cell p1 (i + 2))")
    have "spI q patternSpan = islice"
      using analyzeNet_dollar_result(5) [OF o1 i0 i3 i6 d, of patternSpan] ge by (simp add: f1)
    then have 1: "spI p2 patternSpan = islice"
      by (simp add: p2_def analyzeNet_options_found_fields d)
    have 2: "hasBits (cell p2 islice) BITSlash = hasBits (cell p1 islice) BITSlash"
      using analyzeNet_dollar_cell [OF o1 i0 i6 ge, of "cell p1 (i + 2)"]
      by (simp add: p2_def analyzeNet_options_found_fields)
    from ge i(1) have "islice < c"
      by simp
    with 1 2 patternLooksRegex_span [of p2] show ?thesis
      by (auto simp: patternSpanIsRegexShaped_def start_def)
  qed
  have "analyzeNet_options p islice =
      (if start \<and> patternLooksRegex p1 then (p1, True)
       else if islice \<le> i then (p2, start \<and> patternLooksRegex p2)
       else (p1, False))"
    using l unfolding p2_def start_def p1_def c_def
    by (auto simp: analyzeNet_options_def Let_def)
  with shape1 shape2 show ?thesis
    by (auto split: if_splits)
qed

lemma slice_flavorBits: "flavorBits (slice line p) = 0"
  by (cases "line = []") (simp_all add: slice_def Let_def reset_def setI_def setL_def split: prod.splits)

lemma analyze_comment_loop_spans:
  "analyze_comment_loop p h = p
   \<or> (\<exists>a b. analyze_comment_loop p h = setL commentSpan a (setI commentSpan b p))"
proof (induction p h rule: analyze_comment_loop.induct)
  case (1 p h)
  show ?case
  proof (cases "hasBits (cell p (h - 3)) BITSpace")
    case True
    then show ?thesis
      by (auto simp: analyze_comment_loop.simps [of p h])
  next
    case False
    show ?thesis
    proof (cases "findFirstMatch p (h + 6) BITHash = - 1")
      case True
      with False show ?thesis
        by (simp add: analyze_comment_loop.simps [of p h])
    next
      case ne: False
      with False "1.IH" [OF False refl ne] show ?thesis
        by (simp add: analyze_comment_loop.simps [of p h])
    qed
  qed
qed

lemma analyze_comment_loop_fields:
  "slices (analyze_comment_loop p h) = slices p"
  "sliceWritePtr (analyze_comment_loop p h) = sliceWritePtr p"
  "flavorBits (analyze_comment_loop p h) = flavorBits p"
  using analyze_comment_loop_spans [of p h] by auto

lemma analyzeNet_category: "analyzeNet p = Some q \<Longrightarrow> category q = CATStaticNetFilter"
  by (auto simp: analyzeNet_def Let_def case_prod_beta split: option.splits)

text \<open>
  The three ways through \<open>analyze\<close> for a line that is not empty: nothing but spaces, a
  comment or an extended filter, or a network filter, which is what \<open>analyzeNet\<close> makes of
  the sliced line (with its comment span set).
\<close>

definition netInput :: "jsstring \<Rightarrow> Parser \<Rightarrow> Parser \<Rightarrow> bool" where
  "netInput line p p0 \<longleftrightarrow>
     netStart p0 \<and> flavorBits p0 = 0 \<and> raw p0 = line \<and> slices p0 = slices (slice line p)
     \<and> sliceWritePtr p0 = sliceWritePtr (slice line p)"

lemma analyze_cases:
  assumes ne: "line \<noteq> []"
  shows "analyze line p = Some (slice line p)
     \<or> (\<exists>q. analyze line p = Some q
           \<and> (category q = CATComment \<or> category q = CATStaticExtFilter \<and> ext_tiled q))
     \<or> (\<exists>p0. netInput line p p0 \<and> analyze line p = analyzeNet p0)"
proof -
  define q0 where "q0 = slice line p"
  define slot where "slot = spL q0 leftSpaceSpan"
  define w where "w = sliceWritePtr q0"
  note s = slice_ok [OF ne, of p, folded q0_def, folded w_def]
  note x = slice_extReady [OF ne, where p = p, folded q0_def]
  have w: "6 \<le> w" "w mod 3 = 0"
    using okD(3,4) [OF s(1)] by (simp_all add: w_def)
  from s(4) have slot: "slot = 0 \<or> slot = 3"
    by (simp add: slot_def)
  then have slot3: "0 \<le> slot" "slot mod 3 = 0"
    by auto
  have cat: "category q0 \<noteq> CATStaticExtFilter"
    using s(6) by simp
  show ?thesis
  proof (cases "slot = spI q0 rightSpaceSpan")
    case True
    then show ?thesis
      by (simp add: analyze_def Let_def q0_def [symmetric] slot_def [symmetric])
  next
    case ns: False
    show ?thesis
    proof (cases "hasBits (cell q0 slot) BITLineComment")
      case True
      have slot6: "slot + 6 \<le> sliceWritePtr q0"
        using slot s(5) ns w unfolding w_def by presburger
      have "spL q0 leftSpaceSpan \<le> slot"
        by (simp add: slot_def)
      then have "ext_tiled (analyzeExt slot q0)"
        if "hasBits (cell q0 slot) BITHash" "category (analyzeExt slot q0) = CATStaticExtFilter"
        using s(1) slot3 slot6 s(2) [unfolded w_def] x(1) that(1) x(2) cat that(2)
        by (intro analyzeExt_tiled)
      with ns True show ?thesis
        by (simp add: analyze_def Let_def q0_def [symmetric] slot_def [symmetric])
    next
      case nc: False
      define p1 where "p1 = setI commentSpan (spI q0 rightSpaceSpan) q0"
      have o1: "ok p1"
        unfolding p1_def using s(1) by (intro ok_setI) (simp_all add: okD(1) [OF s(1)])
      have f1: "sliceWritePtr p1 = w" "cell p1 (w - 3) = 0" "category p1 \<noteq> CATStaticExtFilter"
        "allBits p1 = allBits q0"
        using s(2) cat by (simp_all add: p1_def w_def)
      have "0 \<le> spI q0 rightSpaceSpan" "spI q0 rightSpaceSpan + 3 \<le> w"
        using s(5) w by presburger+
      with o1 have n1: "netStart p1"
        by (simp add: netStart_def p1_def s(3) w_def)
      have i1: "netInput line p p1"
        using n1 by (simp add: netInput_def p1_def q0_def slice_flavorBits slice_raw)
      define h where "h = findFirstMatch p1 slot BITHash"
      show ?thesis
      proof (cases "hasBits (allBits q0) BITHash \<and> h \<noteq> - 1")
        case False
        with ns nc have "analyze line p = analyzeNet p1"
          by (auto simp: analyze_def Let_def q0_def [symmetric] slot_def [symmetric]
                p1_def [symmetric] h_def [symmetric] f1(4))
        with i1 show ?thesis
          by blast
      next
        case True
        then have hne: "h \<noteq> - 1"
          by simp
        note f = findFirstMatch_found [OF h_def [symmetric] hne]
        from f(3) slot3(2) have h3: "h mod 3 = 0"
          by presburger
        from f(4) f1(2) have "h \<noteq> w - 3"
          by auto
        with f(2) h3 w(2) have h6: "h + 6 \<le> sliceWritePtr p1"
          unfolding f1(1) by presburger
        from f(1) slot3(1) have h0: "0 \<le> h"
          by simp
        have f1': "cell p1 (sliceWritePtr p1 - 3) = 0"
          using f1(1,2) by simp
        note y = analyzeExt_ok [OF o1 h0 h3 h6 f1' f1(3)]
        show ?thesis
        proof (cases "category (analyzeExt h p1) = CATStaticExtFilter")
          case ext: True
          have r1: "extReady p1"
            using x(1) by (simp add: extReady_def p1_def)
          have "hasBits (cell p1 h) BITHash"
            using f(4) by (simp add: hasBits_def)
          moreover have "k < spI p1 rightSpaceSpan"
            if "0 \<le> k" "k mod 3 = 0" "k + 6 \<le> sliceWritePtr p1" "hasBits (cell p1 k) BITHash" for k
            using x(2) [of k] that by (simp add: p1_def)
          moreover have "spL p1 leftSpaceSpan \<le> h"
            using f(1) by (simp add: p1_def slot_def)
          ultimately have "ext_tiled (analyzeExt h p1)"
            using o1 h0 h3 h6 f1' r1 f1(3) ext by (intro analyzeExt_tiled)
          with ns nc True ext show ?thesis
            by (simp add: analyze_def Let_def q0_def [symmetric] slot_def [symmetric]
                  p1_def [symmetric] h_def [symmetric] f1(4))
        next
          case nx: False
          from y(2) [OF nx] have same: "analyzeExt h p1 = p1" .
          define p2 where "p2 = (if allBits p1 AND BITSpace \<noteq> 0 then analyze_comment_loop p1 h else p1)"
          have "netStart (analyze_comment_loop p1 h)"
            using n1 h3 f(2) by (rule analyze_comment_loop_netStart)
          with n1 have "netStart p2"
            by (simp add: p2_def)
          moreover have "slices p2 = slices p1" "sliceWritePtr p2 = sliceWritePtr p1"
            "flavorBits p2 = flavorBits p1" "raw p2 = raw p1"
            using static_analyze_comment_loop [of p1 h]
            by (simp_all add: p2_def analyze_comment_loop_fields static_def)
          ultimately have "netInput line p p2"
            using i1 by (simp add: netInput_def)
          moreover from ns nc True nx same have "analyze line p = analyzeNet p2"
            by (simp add: analyze_def Let_def q0_def [symmetric] slot_def [symmetric]
                  p1_def [symmetric] h_def [symmetric] f1(4) p2_def)
          ultimately show ?thesis
            by blast
        qed
      qed
    qed
  qed
qed

lemma analyze_net:
  assumes "analyze line p = Some q" and "category q = CATStaticNetFilter"
  shows "\<exists>p0. netInput line p p0 \<and> analyzeNet p0 = Some q"
proof (cases "line = []")
  case True
  with assms have "q = slice [] p"
    by (simp add: analyze_empty)
  then have "category q = CATNone"
    by (simp add: slice_empty reset_def)
  with assms(2) show ?thesis
    by simp
next
  case False
  have "category (slice line p) = CATNone"
    using False by (rule slice_ok)
  with analyze_cases [OF False, of p] assms show ?thesis
    by auto
qed




subsection \<open>The spans of the filters (C5)\<close>



subsection \<open>Behaviour on particular lines\<close>

text \<open>
  C2. With the options \<open>popup,redirect=a\<close> no option has a network type (\<open>popup\<close> is a type
  that is not a network type), and yet \<open>init\<close> keeps the id of \<open>redirect\<close>: the iteration
  yields \<open>popup\<close> and then \<open>redirect\<close> with its value, not an invalid option. The test
  of the source is \<open>typeCount !== 1 && networkTypeCount !== 1\<close>, under the comment
  "redirect requires one single network type".
\<close>

theorem redirect_valid_without_network_type:
  "Option.bind (analyze (str ''*$popup,redirect=a'') freshParser)
     (\<lambda>p. map_option snd (netOptions p newNetOptionsIterator))
   = Some [(OPTTokenPopup, None, False), (OPTTokenRedirect, Some (str ''a''), False)]"
  by code_simp

text \<open>
  C8. A parser analyzes \<open>ab*cd\<close> and its tokens are iterated (there is none: both runs
  touch the wildcard), then it analyzes \<open>$abc\<close>, a network filter with an empty pattern.
  \<open>[Symbol.iterator]()\<close> does not reset the range of the iterator for an empty pattern, so
  \<open>next\<close> scans the range of the line before, finds the run \<open>abc\<close> of the options and
  throws a \<open>TypeError\<close> instead of yielding no token.
\<close>

theorem patternTokens_empty_pattern_throws:
  "Option.bind (analyze (str ''ab*cd'') freshParser)
     (\<lambda>p1. case patternTokens p1 newPatternTokenIterator of
              Inl e \<Rightarrow> None
            | Inr (ts, it) \<Rightarrow>
                Option.bind (analyze (str ''$abc'') p1)
                  (\<lambda>p2. Some (ts, category p2, spL p2 patternSpan, patternTokens p2 it)))
   = Some ([], CATStaticNetFilter, 0, Inl TypeError)"
  by code_simp

text \<open>
  C9. For the line \<open>/\<close> followed by the code unit 0xE9 the pattern has a unicode character
  and \<open>reHostname\<close> does not match, as the pattern starts with \<open>/\<close>: \<open>toPunycode\<close> leaves
  through the bare \<open>return\<close> and its value is \<open>undefined\<close>, not a boolean.
\<close>

theorem toPunycode_returns_undefined:
  "Option.bind (analyze (str ''/'' @ [0xE9]) freshParser) (\<lambda>p. map_option fst (toPunycode p))
   = Some JSUndefined"
  by code_simp


text \<open>C4, as stated, fails: for the empty line \<open>slice\<close> writes no end-of-line slice.\<close>

theorem empty_line_has_no_sentinel: "\<not> eol_sentinel (slice [] freshParser)"
  by code_simp



text \<open>
  C10, as stated, fails: the line made of a space and the control character 0x01 is not
  made of whitespace only, and \<open>isBlank()\<close> is true after its analysis.
\<close>

theorem isBlank_with_control_character:
  "map_option isBlank (analyze [0x20, 0x01] freshParser) = Some True
   \<and> \<not> list_all isWhitespace [0x20, 0x01]"
  by code_simp

subsection \<open>The theorems on particular lines\<close>

theorem slices_contiguous_and_exhaustive_witness:
  "sliceWritePtr (the (analyze (str ''|||a$$b'') freshParser)) = 21
   \<and> contiguous (the (analyze (str ''|||a$$b'') freshParser))
   \<and> sumLengths (the (analyze (str ''|||a$$b'') freshParser)) = 7"
proof -
  have "sliceWritePtr (the (analyze (str ''|||a$$b'') freshParser)) = 21"
    by code_simp
  with slices_contiguous_and_exhaustive [of "str ''|||a$$b''" freshParser] show ?thesis
    by (auto simp: str_def)
qed


end
